theory Spec2Isabelle
  imports Main
begin

section \<open>JillBag: host and player sessions over a peer-to-peer transport\<close>

text \<open>
  The development embeds \<^verbatim>\<open>src/jillBag.js\<close>: the function \<^verbatim>\<open>randomString\<close> and the
  classes \<^verbatim>\<open>JillBagHost\<close> and \<^verbatim>\<open>JillBagPlayer\<close>.  Both classes are event driven: the
  PeerJS client calls the listeners that the constructors register.  A listener and a public
  method is a function from the state of the object to its new state; an exception is a
  value \<open>Inl e\<close> paired with the state reached when it was thrown (JavaScript undoes
  nothing).

  The PeerJS client is not part of the repository.  What its connection handles do when
  the code calls \<^verbatim>\<open>close()\<close> and \<^verbatim>\<open>send(data)\<close> on them is a parameter, the record
  \<open>transport\<close>; what the client tells the code is an \<open>event\<close>.
\<close>

subsection \<open>Values, exceptions and the console\<close>

type_synonym ident = string
type_synonym handle = nat

datatype jsval =
    JUndefined
  | JNull
  | JBool bool
  | JNum int
  | JStr string
  | JArr "jsval list"
  | JObj "(string \<times> jsval) list"

datatype error = TypeError | TransportError

datatype level = Info | Warning | Failure

text \<open>One call of \<^verbatim>\<open>console.log\<close>, \<^verbatim>\<open>console.warn\<close> or \<^verbatim>\<open>console.error\<close> with its arguments.\<close>

type_synonym line = "level \<times> jsval list"

subsection \<open>The JavaScript \<^verbatim>\<open>Map\<close>\<close>

text \<open>
  A \<^verbatim>\<open>Map\<close> keeps its entries in insertion order, which is the order \<^verbatim>\<open>closeAll\<close>
  iterates in, so the registry is an association list.  \<^verbatim>\<open>set\<close> on a key that is present
  replaces the value where the entry stands; on a new key it appends.
\<close>

type_synonym ('k, 'v) jsmap = "('k \<times> 'v) list"

definition map_has :: "'k \<Rightarrow> ('k, 'v) jsmap \<Rightarrow> bool" where
  "map_has k m = (k \<in> set (map fst m))"

fun map_get :: "'k \<Rightarrow> ('k, 'v) jsmap \<Rightarrow> 'v option" where
  "map_get k [] = None"
| "map_get k ((k', v) # m) = (if k' = k then Some v else map_get k m)"

fun map_set :: "'k \<Rightarrow> 'v \<Rightarrow> ('k, 'v) jsmap \<Rightarrow> ('k, 'v) jsmap" where
  "map_set k v [] = [(k, v)]"
| "map_set k v ((k', v') # m) = (if k' = k then (k, v) # m else (k', v') # map_set k v m)"

definition map_delete :: "'k \<Rightarrow> ('k, 'v) jsmap \<Rightarrow> ('k, 'v) jsmap" where
  "map_delete k m = filter (\<lambda>e. fst e \<noteq> k) m"

definition map_clear :: "('k, 'v) jsmap \<Rightarrow> ('k, 'v) jsmap" where
  "map_clear m = []"

subsection \<open>\<^verbatim>\<open>randomString\<close> and the peer ids\<close>

text \<open>
  \<^verbatim>\<open>Math.random()\<close> returns a double of \<open>[0, 1)\<close>.  These doubles are the numbers
  \<open>m / 2 ^ e\<close> with \<open>m < 2 ^ 53\<close>, \<open>e \<le> 1074\<close> and \<open>m < 2 ^ e\<close>; the pair \<open>(m, e)\<close> stands for
  the double.  \<^verbatim>\<open>Math.random\<close> is the parameter \<open>rnd\<close>: \<open>rnd i\<close> is what the \<open>i\<close>-th call
  made by one run of \<^verbatim>\<open>randomString\<close> returns.
\<close>

type_synonym double01 = "nat \<times> nat"

definition is_unit_double :: "double01 \<Rightarrow> bool" where
  "is_unit_double r = (case r of (m, e) \<Rightarrow> m < 2 ^ 53 \<and> e \<le> 1074 \<and> m < 2 ^ e)"

text \<open>The number of binary digits of a natural number.\<close>

fun bit_length :: "nat \<Rightarrow> nat" where
  "bit_length p = (if p = 0 then 0 else Suc (bit_length (p div 2)))"

declare bit_length.simps [simp del]

text \<open>
  The product of the double \<open>m / 2 ^ e\<close> and the length \<open>n\<close> of the alphabet is the double
  nearest to \<open>m * n / 2 ^ e\<close>, a tie going to the even significand.  \<open>round53 p\<close> rounds
  the numerator \<open>p = m * n\<close> to 53 significant binary digits in that way.  (A product of
  more than 53 digits is at least \<open>2 ^ 53 / 2 ^ 1074\<close>, a normal double, so 53 digits is its
  precision; a product of at most 53 digits is a multiple of \<open>1 / 2 ^ 1074\<close> and is exact.
  The length of a string is below \<open>2 ^ 53\<close> and is a double itself.)
\<close>

definition round53 :: "nat \<Rightarrow> nat" where
  "round53 p =
     (if bit_length p \<le> 53 then p
      else (let s = bit_length p - 53;
                q = p div 2 ^ s;
                rest = p mod 2 ^ s;
                half = 2 ^ (s - 1)
            in (if half < rest \<or> (rest = half \<and> odd q) then q + 1 else q) * 2 ^ s))"

text \<open>\<^verbatim>\<open>Math.floor(Math.random() * alphabet.length)\<close>, for the double \<open>r\<close> that was drawn.\<close>

definition random_index :: "double01 \<Rightarrow> nat \<Rightarrow> nat" where
  "random_index r n = (case r of (m, e) \<Rightarrow> round53 (m * n) div 2 ^ e)"

text \<open>
  Indexing a string out of range gives \<^verbatim>\<open>undefined\<close>, which \<^verbatim>\<open>+=\<close> appends as the text
  \<^verbatim>\<open>undefined\<close>.
\<close>

definition uppercase :: string where
  "uppercase = ''ABCDEFGHIJKLMNOPQRSTUVWXYZ''"

definition char_at :: "string \<Rightarrow> nat \<Rightarrow> string" where
  "char_at alphabet j = (if j < length alphabet then [alphabet ! j] else ''undefined'')"

function randomString_loop :: "(nat \<Rightarrow> double01) \<Rightarrow> string \<Rightarrow> nat \<Rightarrow> nat \<Rightarrow> string \<Rightarrow> string" where
  "randomString_loop rnd alphabet len i result =
     (if i < len
      then randomString_loop rnd alphabet len (Suc i)
             (result @ char_at alphabet (random_index (rnd i) (length alphabet)))
      else result)"
  by pat_completeness auto
termination
  by (relation "measure (\<lambda>(rnd, alphabet, len, i, result). len - i)") auto

text \<open>The equation of the loop is applied by name, one step at a time.\<close>

declare randomString_loop.simps [simp del]

definition randomString :: "(nat \<Rightarrow> double01) \<Rightarrow> nat \<Rightarrow> string \<Rightarrow> string" where
  "randomString rnd len alphabet = randomString_loop rnd alphabet len 0 ''''"

definition hostPeerId :: "string \<Rightarrow> string" where
  "hostPeerId hostId = ''JillBagHost'' @ hostId"

definition playerPeerId :: "string \<Rightarrow> string" where
  "playerPeerId playerId = ''JillBagPlayer'' @ playerId"

subsection \<open>The transport\<close>

text \<open>
  What a handle's \<^verbatim>\<open>close()\<close> does is not fixed by the code, which wraps every call in
  \<^verbatim>\<open>try \<dots> catch\<close>: it may mark the connection closed and call the \<^verbatim>\<open>close\<close> listeners
  before it returns (\<open>EmitsNow\<close>), mark it closed and leave the notification to a later turn
  of the event loop (\<open>EmitsLater\<close>), or throw (\<open>Throws\<close>).  A handle's \<^verbatim>\<open>send\<close> either
  queues the payload or throws.
\<close>

datatype close_behaviour = EmitsNow | EmitsLater | Throws

record transport =
  tr_close :: "handle \<Rightarrow> close_behaviour"
  tr_send_throws :: "handle \<Rightarrow> jsval \<Rightarrow> bool"

subsection \<open>\<^verbatim>\<open>JillBagHost\<close>: state\<close>

text \<open>
  A connection object as the host sees it.  \<open>c_metadata\<close> is \<^verbatim>\<open>conn.metadata.id\<close>, with
  \<open>None\<close> for a connection that came with no metadata, on which reading \<^verbatim>\<open>.id\<close> throws.
  \<open>c_subs\<close> holds the listeners that the \<^verbatim>\<open>open\<close> listener has put on the connection:
  each entry stands for one \<^verbatim>\<open>data\<close>, one \<^verbatim>\<open>close\<close> and one \<^verbatim>\<open>error\<close> listener, and is
  the \<^verbatim>\<open>otherId\<close> that the three closures captured.  \<open>c_sent\<close> and \<open>c_closes\<close> record the
  calls of \<^verbatim>\<open>send\<close> and \<^verbatim>\<open>close\<close> that reached the handle.
\<close>

record conn =
  c_open :: bool
  c_metadata :: "ident option"
  c_subs :: "ident list"
  c_sent :: "jsval list"
  c_closes :: nat

text \<open>
  \<open>others\<close> is the field \<^verbatim>\<open>_others\<close>, \<open>conns\<close> the store of connection objects,
  \<open>peer_reconnects\<close> the calls of \<^verbatim>\<open>_peer.reconnect()\<close> (the only method of the peer that
  the class calls after the constructor), \<open>console\<close> what has been printed.
\<close>

record host =
  hostId :: string
  peer_id :: string
  peer_reconnects :: nat
  others :: "(ident, handle) jsmap"
  conns :: "handle \<Rightarrow> conn"
  console :: "line list"

text \<open>
  The six overridable \<^verbatim>\<open>handle*\<close> methods.  A hook sees its arguments and the host as it
  stands when the hook is called, and what it returns is printed; it does not write to the
  host.  \<open>default_hooks\<close> are the methods of the class itself.
\<close>

record hooks =
  handlePeerReady :: "string \<Rightarrow> host \<Rightarrow> line list"
  handlePeerError :: "string \<Rightarrow> host \<Rightarrow> line list"
  handleOpen :: "ident \<Rightarrow> host \<Rightarrow> line list"
  handleData :: "ident \<Rightarrow> jsval \<Rightarrow> host \<Rightarrow> line list"
  handleClose :: "ident \<Rightarrow> host \<Rightarrow> line list"
  handleError :: "ident \<Rightarrow> string \<Rightarrow> host \<Rightarrow> line list"

definition default_hooks :: hooks where
  "default_hooks =
     \<lparr> handlePeerReady = (\<lambda>myId w. [(Info, [JStr (''Peer open with id '' @ myId @ ''.'')])]),
       handlePeerError = (\<lambda>err w. [(Failure, [JStr (''Peer error: '' @ err @ ''.'')])]),
       handleOpen = (\<lambda>otherId w. [(Info, [JStr (''Connection with '' @ otherId @ '' open.'')])]),
       handleData = (\<lambda>otherId d w. [(Info, [JStr ''Received from'', JStr otherId, JStr ''data'', d])]),
       handleClose = (\<lambda>otherId w. [(Info, [JStr (''Connection with '' @ otherId @ '' closed.'')])]),
       handleError = (\<lambda>otherId err w.
         [(Failure, [JStr (''Received from '' @ otherId @ '' error '' @ err @ ''.'')])]) \<rparr>"

definition call_hook :: "(host \<Rightarrow> line list) \<Rightarrow> host \<Rightarrow> host" where
  "call_hook f w = w\<lparr>console := console w @ f w\<rparr>"

definition upd_conn :: "handle \<Rightarrow> (conn \<Rightarrow> conn) \<Rightarrow> host \<Rightarrow> host" where
  "upd_conn h f w = w\<lparr>conns := (conns w)(h := f (conns w h))\<rparr>"

text \<open>
  The constructor: six calls of \<^verbatim>\<open>Math.random\<close> give the room code, the peer is built on
  the id derived from it, the registry is empty.  \<open>meta\<close> is the metadata of the connections
  that the transport will hand over; none of them has a listener yet.
\<close>

definition host_new :: "(nat \<Rightarrow> double01) \<Rightarrow> (handle \<Rightarrow> ident option) \<Rightarrow> host" where
  "host_new rnd meta =
     (let code = randomString rnd 6 uppercase in
      \<lparr> hostId = code,
        peer_id = hostPeerId code,
        peer_reconnects = 0,
        others = [],
        conns = (\<lambda>h. \<lparr> c_open = False, c_metadata = meta h, c_subs = [],
                          c_sent = [], c_closes = 0 \<rparr>),
        console = [] \<rparr>)"

subsection \<open>\<^verbatim>\<open>JillBagHost\<close>: listeners on a connection\<close>

text \<open>The \<^verbatim>\<open>close\<close> listener (lines 39 to 42): delete the entry, then call the hook.\<close>

definition host_on_close :: "hooks \<Rightarrow> ident \<Rightarrow> host \<Rightarrow> host" where
  "host_on_close hk otherId w =
     call_hook (handleClose hk otherId) (w\<lparr>others := map_delete otherId (others w)\<rparr>)"

text \<open>The \<^verbatim>\<open>data\<close> and \<^verbatim>\<open>error\<close> listeners (lines 38 and 43) only call their hooks.\<close>

definition host_on_data :: "hooks \<Rightarrow> ident \<Rightarrow> jsval \<Rightarrow> host \<Rightarrow> host" where
  "host_on_data hk otherId d w = call_hook (handleData hk otherId d) w"

definition host_on_error :: "hooks \<Rightarrow> ident \<Rightarrow> string \<Rightarrow> host \<Rightarrow> host" where
  "host_on_error hk otherId err w = call_hook (handleError hk otherId err) w"

text \<open>
  A connection emitting \<^verbatim>\<open>close\<close>, \<^verbatim>\<open>data\<close> or \<^verbatim>\<open>error\<close> calls the listeners it holds
  when the emission starts, in the order in which they were added.
\<close>

definition emit_close :: "hooks \<Rightarrow> handle \<Rightarrow> host \<Rightarrow> host" where
  "emit_close hk h w = foldl (\<lambda>w' otherId. host_on_close hk otherId w') w (c_subs (conns w h))"

definition emit_data :: "hooks \<Rightarrow> handle \<Rightarrow> jsval \<Rightarrow> host \<Rightarrow> host" where
  "emit_data hk h d w = foldl (\<lambda>w' otherId. host_on_data hk otherId d w') w (c_subs (conns w h))"

definition emit_error :: "hooks \<Rightarrow> handle \<Rightarrow> string \<Rightarrow> host \<Rightarrow> host" where
  "emit_error hk h err w =
     foldl (\<lambda>w' otherId. host_on_error hk otherId err w') w (c_subs (conns w h))"

subsection \<open>\<^verbatim>\<open>JillBagHost\<close>: the calls on a handle\<close>

text \<open>
  \<^verbatim>\<open>conn.close()\<close>: the request is counted, then the transport does one of the three
  things a \<open>close_behaviour\<close> names.  A connection that is already closed emits nothing.
\<close>

definition conn_close :: "hooks \<Rightarrow> transport \<Rightarrow> handle \<Rightarrow> host \<Rightarrow> (error + unit) \<times> host" where
  "conn_close hk tr h w =
     (let w1 = upd_conn h (\<lambda>c. c\<lparr>c_closes := Suc (c_closes c)\<rparr>) w in
      case tr_close tr h of
        Throws \<Rightarrow> (Inl TransportError, w1)
      | EmitsLater \<Rightarrow> (Inr (), upd_conn h (\<lambda>c. c\<lparr>c_open := False\<rparr>) w1)
      | EmitsNow \<Rightarrow>
          if c_open (conns w1 h)
          then (Inr (), emit_close hk h (upd_conn h (\<lambda>c. c\<lparr>c_open := False\<rparr>) w1))
          else (Inr (), w1))"

text \<open>\<^verbatim>\<open>conn.send(data)\<close>: the payload is queued as it is, unless the transport throws.\<close>

definition conn_send :: "transport \<Rightarrow> handle \<Rightarrow> jsval \<Rightarrow> host \<Rightarrow> (error + unit) \<times> host" where
  "conn_send tr h d w =
     (if tr_send_throws tr h d then (Inl TransportError, w)
      else (Inr (), upd_conn h (\<lambda>c. c\<lparr>c_sent := c_sent c @ [d]\<rparr>) w))"

text \<open>\<^verbatim>\<open>try { \<dots> } catch {}\<close>: the exception is dropped, the state it left is kept.\<close>

definition try_catch :: "(error + unit) \<times> 's \<Rightarrow> (error + unit) \<times> 's" where
  "try_catch r = (Inr (), snd r)"

subsection \<open>\<^verbatim>\<open>JillBagHost\<close>: public methods\<close>

definition host_send :: "transport \<Rightarrow> ident \<Rightarrow> jsval \<Rightarrow> host \<Rightarrow> (error + bool) \<times> host" where
  "host_send tr otherId d w =
     (case map_get otherId (others w) of
        None \<Rightarrow>
          (Inr False, w\<lparr>console := console w @ [(Warning, [JStr (''No open connection to '' @ otherId)])]\<rparr>)
      | Some h \<Rightarrow>
          if \<not> c_open (conns w h)
          then (Inr False,
                w\<lparr>console := console w @ [(Warning, [JStr (''No open connection to '' @ otherId)])]\<rparr>)
          else (case conn_send tr h d w of
                  (Inl e, w') \<Rightarrow> (Inl e, w')
                | (Inr u, w') \<Rightarrow> (Inr True, w')))"

definition host_close :: "hooks \<Rightarrow> transport \<Rightarrow> ident \<Rightarrow> host \<Rightarrow> (error + unit) \<times> host" where
  "host_close hk tr otherId w =
     (case (case map_get otherId (others w) of
              None \<Rightarrow> (Inr (), w)
            | Some h \<Rightarrow> try_catch (conn_close hk tr h w)) of
        (Inl e, w1) \<Rightarrow> (Inl e, w1)
      | (Inr u, w1) \<Rightarrow> (Inr (), w1\<lparr>others := map_delete otherId (others w1)\<rparr>))"

text \<open>
  The loop of \<^verbatim>\<open>closeAll\<close> walks the live \<^verbatim>\<open>Map\<close>: an entry deleted before the iterator
  reaches it is not visited.  Nothing adds an entry while the loop runs (a \<^verbatim>\<open>close\<close>
  listener deletes, a hook does not write), so the loop goes through the entries the
  registry had when it started and skips those that are gone.
\<close>

fun closeAll_loop :: "hooks \<Rightarrow> transport \<Rightarrow> (ident \<times> handle) list \<Rightarrow> host \<Rightarrow> (error + unit) \<times> host" where
  "closeAll_loop hk tr [] w = (Inr (), w)"
| "closeAll_loop hk tr ((k, h) # rest) w =
     (if map_get k (others w) = Some h
      then (case try_catch (conn_close hk tr h w) of
              (Inl e, w1) \<Rightarrow> (Inl e, w1)
            | (Inr u, w1) \<Rightarrow> closeAll_loop hk tr rest w1)
      else closeAll_loop hk tr rest w)"

definition host_closeAll :: "hooks \<Rightarrow> transport \<Rightarrow> host \<Rightarrow> (error + unit) \<times> host" where
  "host_closeAll hk tr w =
     (case closeAll_loop hk tr (others w) w of
        (Inl e, w1) \<Rightarrow> (Inl e, w1)
      | (Inr u, w1) \<Rightarrow> (Inr (), w1\<lparr>others := map_clear (others w1)\<rparr>))"

subsection \<open>\<^verbatim>\<open>JillBagHost\<close>: the \<^verbatim>\<open>open\<close> listener of an inbound connection\<close>

text \<open>
  Lines 31 to 46.  \<open>host_evict\<close> is line 34, the close of the connection that holds the
  identity; the rest inserts the new connection, adds the three listeners and calls the
  hook.
\<close>

definition host_evict :: "hooks \<Rightarrow> transport \<Rightarrow> ident \<Rightarrow> host \<Rightarrow> (error + unit) \<times> host" where
  "host_evict hk tr otherId w =
     (if map_has otherId (others w) then host_close hk tr otherId w else (Inr (), w))"

definition host_track :: "hooks \<Rightarrow> ident \<Rightarrow> handle \<Rightarrow> host \<Rightarrow> host" where
  "host_track hk otherId h w =
     call_hook (handleOpen hk otherId)
       (upd_conn h (\<lambda>c. c\<lparr>c_subs := c_subs c @ [otherId]\<rparr>)
          (w\<lparr>others := map_set otherId h (others w)\<rparr>))"

definition host_on_open :: "hooks \<Rightarrow> transport \<Rightarrow> handle \<Rightarrow> host \<Rightarrow> (error + unit) \<times> host" where
  "host_on_open hk tr h w =
     (case c_metadata (conns w h) of
        None \<Rightarrow> (Inl TypeError, w)
      | Some otherId \<Rightarrow>
          (case host_evict hk tr otherId w of
             (Inl e, w1) \<Rightarrow> (Inl e, w1)
           | (Inr u, w1) \<Rightarrow> (Inr (), host_track hk otherId h w1)))"

subsection \<open>\<^verbatim>\<open>JillBagHost\<close>: events\<close>

text \<open>
  What can happen to a host: a notification of the peer, a notification of a connection
  that the transport has handed over, or a call of a public method by the game.  With
  \<open>ConnOpen\<close> and \<open>ConnClose\<close> the transport sets the status that \<^verbatim>\<open>conn.open\<close> reads
  before it calls the listeners.  An exception that leaves a listener ends that listener
  and nothing else: the next event finds the state the exception left.
\<close>

datatype event =
    PeerOpen string
  | PeerError string
  | PeerDisconnected
  | ConnOpen handle
  | ConnData handle jsval
  | ConnClose handle
  | ConnError handle string
  | CallSend ident jsval
  | CallClose ident
  | CallCloseAll

fun host_step :: "hooks \<Rightarrow> transport \<Rightarrow> event \<Rightarrow> host \<Rightarrow> host" where
  "host_step hk tr (PeerOpen myId) w = call_hook (handlePeerReady hk myId) w"
| "host_step hk tr (PeerError err) w = call_hook (handlePeerError hk err) w"
| "host_step hk tr PeerDisconnected w = w\<lparr>peer_reconnects := Suc (peer_reconnects w)\<rparr>"
| "host_step hk tr (ConnOpen h) w =
     snd (host_on_open hk tr h (upd_conn h (\<lambda>c. c\<lparr>c_open := True\<rparr>) w))"
| "host_step hk tr (ConnData h d) w = emit_data hk h d w"
| "host_step hk tr (ConnClose h) w = emit_close hk h (upd_conn h (\<lambda>c. c\<lparr>c_open := False\<rparr>) w)"
| "host_step hk tr (ConnError h err) w = emit_error hk h err w"
| "host_step hk tr (CallSend otherId d) w = snd (host_send tr otherId d w)"
| "host_step hk tr (CallClose otherId) w = snd (host_close hk tr otherId w)"
| "host_step hk tr CallCloseAll w = snd (host_closeAll hk tr w)"

definition host_run :: "hooks \<Rightarrow> transport \<Rightarrow> event list \<Rightarrow> host \<Rightarrow> host" where
  "host_run hk tr evs w = foldl (\<lambda>w' ev. host_step hk tr ev w') w evs"

subsection \<open>\<^verbatim>\<open>JillBagPlayer\<close>: state\<close>

text \<open>
  A connection object as the player sees it.  \<open>pc_opens\<close> counts the \<^verbatim>\<open>open\<close> listeners
  that \<^verbatim>\<open>_connectToHost\<close> has put on it, \<open>pc_subs\<close> the triples of \<^verbatim>\<open>data\<close>, \<^verbatim>\<open>close\<close>
  and \<^verbatim>\<open>error\<close> listeners that an \<^verbatim>\<open>open\<close> listener has put on it; these closures
  capture nothing but \<^verbatim>\<open>this\<close>.
\<close>

record pconn =
  pc_open :: bool
  pc_opens :: nat
  pc_subs :: nat
  pc_sent :: "jsval list"
  pc_closes :: nat

text \<open>One call of \<^verbatim>\<open>_peer.connect\<close>: the address dialled and the options passed.\<close>

record dial =
  d_target :: string
  d_metadata :: jsval
  d_serialization :: string

text \<open>
  \<open>p_conn\<close> is the field \<^verbatim>\<open>_conn\<close>, with \<open>None\<close> for \<^verbatim>\<open>null\<close>.  \<open>p_dials\<close> lists the calls
  of \<^verbatim>\<open>_peer.connect\<close>; each returns a new connection object, and the handle of the
  \<open>k\<close>-th object is \<open>k\<close>.
\<close>

record player =
  p_hostId :: string
  p_playerId :: string
  p_peer_id :: string
  p_peer_reconnects :: nat
  p_conn :: "handle option"
  p_conns :: "handle \<Rightarrow> pconn"
  p_dials :: "dial list"
  p_console :: "line list"

record phooks =
  p_handlePeerReady :: "string \<Rightarrow> player \<Rightarrow> line list"
  p_handlePeerError :: "string \<Rightarrow> player \<Rightarrow> line list"
  p_handleOpen :: "player \<Rightarrow> line list"
  p_handleData :: "jsval \<Rightarrow> player \<Rightarrow> line list"
  p_handleClose :: "player \<Rightarrow> line list"
  p_handleError :: "string \<Rightarrow> player \<Rightarrow> line list"

definition default_phooks :: phooks where
  "default_phooks =
     \<lparr> p_handlePeerReady = (\<lambda>myId w. [(Info, [JStr (''Peer open with id '' @ myId @ ''.'')])]),
       p_handlePeerError = (\<lambda>err w. [(Failure, [JStr (''Peer error: '' @ err @ ''.'')])]),
       p_handleOpen = (\<lambda>w. [(Info, [JStr ''Connection with host open.''])]),
       p_handleData = (\<lambda>d w. [(Info, [JStr ''Received from host data'', d])]),
       p_handleClose = (\<lambda>w. [(Info, [JStr ''Connection with host closed.''])]),
       p_handleError = (\<lambda>err w. [(Failure, [JStr (''Received from host error '' @ err @ ''.'')])]) \<rparr>"

definition call_phook :: "(player \<Rightarrow> line list) \<Rightarrow> player \<Rightarrow> player" where
  "call_phook f w = w\<lparr>p_console := p_console w @ f w\<rparr>"

definition upd_pconn :: "handle \<Rightarrow> (pconn \<Rightarrow> pconn) \<Rightarrow> player \<Rightarrow> player" where
  "upd_pconn h f w = w\<lparr>p_conns := (p_conns w)(h := f (p_conns w h))\<rparr>"

text \<open>
  The constructor keeps the room code it is given, draws the identity with ten calls of
  \<^verbatim>\<open>Math.random\<close> and builds the peer on the id derived from it.
\<close>

definition player_new :: "(nat \<Rightarrow> double01) \<Rightarrow> string \<Rightarrow> player" where
  "player_new rnd hostId' =
     (let pid = randomString rnd 10 uppercase in
      \<lparr> p_hostId = hostId',
        p_playerId = pid,
        p_peer_id = playerPeerId pid,
        p_peer_reconnects = 0,
        p_conn = None,
        p_conns = (\<lambda>h. \<lparr> pc_open = False, pc_opens = 0, pc_subs = 0, pc_sent = [], pc_closes = 0 \<rparr>),
        p_dials = [],
        p_console = [] \<rparr>)"

subsection \<open>\<^verbatim>\<open>JillBagPlayer\<close>: listeners on the connection\<close>

text \<open>The \<^verbatim>\<open>close\<close> listener (lines 121 to 124): clear the slot, then call the hook.\<close>

definition player_on_close :: "phooks \<Rightarrow> player \<Rightarrow> player" where
  "player_on_close hk w = call_phook (p_handleClose hk) (w\<lparr>p_conn := None\<rparr>)"

definition player_on_data :: "phooks \<Rightarrow> jsval \<Rightarrow> player \<Rightarrow> player" where
  "player_on_data hk d w = call_phook (p_handleData hk d) w"

definition player_on_error :: "phooks \<Rightarrow> string \<Rightarrow> player \<Rightarrow> player" where
  "player_on_error hk err w = call_phook (p_handleError hk err) w"

text \<open>
  The \<^verbatim>\<open>open\<close> listener (lines 119 to 128) reads \<^verbatim>\<open>this._conn\<close> when it runs: the three
  listeners go on the connection that the slot holds then, and with an empty slot the first
  \<^verbatim>\<open>this._conn.on\<close> throws.
\<close>

definition player_on_open :: "phooks \<Rightarrow> player \<Rightarrow> (error + unit) \<times> player" where
  "player_on_open hk w =
     (case p_conn w of
        None \<Rightarrow> (Inl TypeError, w)
      | Some c \<Rightarrow> (Inr (), call_phook (p_handleOpen hk) (upd_pconn c (\<lambda>x. x\<lparr>pc_subs := Suc (pc_subs x)\<rparr>) w)))"

text \<open>Calling \<open>n\<close> listeners in turn; an exception ends the emission.\<close>

fun emit_times :: "nat \<Rightarrow> ('s \<Rightarrow> (error + unit) \<times> 's) \<Rightarrow> 's \<Rightarrow> (error + unit) \<times> 's" where
  "emit_times 0 f w = (Inr (), w)"
| "emit_times (Suc n) f w =
     (case f w of (Inl e, w1) \<Rightarrow> (Inl e, w1) | (Inr u, w1) \<Rightarrow> emit_times n f w1)"

definition pemit_open :: "phooks \<Rightarrow> handle \<Rightarrow> player \<Rightarrow> (error + unit) \<times> player" where
  "pemit_open hk h w = emit_times (pc_opens (p_conns w h)) (player_on_open hk) w"

definition pemit_close :: "phooks \<Rightarrow> handle \<Rightarrow> player \<Rightarrow> player" where
  "pemit_close hk h w = (player_on_close hk ^^ pc_subs (p_conns w h)) w"

definition pemit_data :: "phooks \<Rightarrow> handle \<Rightarrow> jsval \<Rightarrow> player \<Rightarrow> player" where
  "pemit_data hk h d w = (player_on_data hk d ^^ pc_subs (p_conns w h)) w"

definition pemit_error :: "phooks \<Rightarrow> handle \<Rightarrow> string \<Rightarrow> player \<Rightarrow> player" where
  "pemit_error hk h err w = (player_on_error hk err ^^ pc_subs (p_conns w h)) w"

subsection \<open>\<^verbatim>\<open>JillBagPlayer\<close>: the calls on a handle\<close>

definition pconn_close :: "phooks \<Rightarrow> transport \<Rightarrow> handle \<Rightarrow> player \<Rightarrow> (error + unit) \<times> player" where
  "pconn_close hk tr h w =
     (let w1 = upd_pconn h (\<lambda>c. c\<lparr>pc_closes := Suc (pc_closes c)\<rparr>) w in
      case tr_close tr h of
        Throws \<Rightarrow> (Inl TransportError, w1)
      | EmitsLater \<Rightarrow> (Inr (), upd_pconn h (\<lambda>c. c\<lparr>pc_open := False\<rparr>) w1)
      | EmitsNow \<Rightarrow>
          if pc_open (p_conns w1 h)
          then (Inr (), pemit_close hk h (upd_pconn h (\<lambda>c. c\<lparr>pc_open := False\<rparr>) w1))
          else (Inr (), w1))"

definition pconn_send :: "transport \<Rightarrow> handle \<Rightarrow> jsval \<Rightarrow> player \<Rightarrow> (error + unit) \<times> player" where
  "pconn_send tr h d w =
     (if tr_send_throws tr h d then (Inl TransportError, w)
      else (Inr (), upd_pconn h (\<lambda>c. c\<lparr>pc_sent := pc_sent c @ [d]\<rparr>) w))"

subsection \<open>\<^verbatim>\<open>JillBagPlayer\<close>: methods\<close>

text \<open>
  \<^verbatim>\<open>_connectToHost\<close>: dial the id derived from \<^verbatim>\<open>this.hostId\<close>, keep the connection
  returned in the slot and put the \<^verbatim>\<open>open\<close> listener on it.
\<close>

definition connectToHost :: "player \<Rightarrow> player" where
  "connectToHost w =
     (let h = length (p_dials w) in
      upd_pconn h (\<lambda>c. c\<lparr>pc_opens := Suc (pc_opens c)\<rparr>)
        (w\<lparr>p_conn := Some h,
           p_dials := p_dials w @
             [\<lparr> d_target = hostPeerId (p_hostId w),
                d_metadata = JObj [(''id'', JStr (p_playerId w))],
                d_serialization = ''json'' \<rparr>]\<rparr>))"

definition sendHost :: "transport \<Rightarrow> jsval \<Rightarrow> player \<Rightarrow> (error + bool) \<times> player" where
  "sendHost tr d w =
     (case p_conn w of
        None \<Rightarrow> (Inr False, w\<lparr>p_console := p_console w @ [(Warning, [JStr ''No open connection to host.''])]\<rparr>)
      | Some h \<Rightarrow>
          if \<not> pc_open (p_conns w h)
          then (Inr False,
                w\<lparr>p_console := p_console w @ [(Warning, [JStr ''No open connection to host.''])]\<rparr>)
          else (case pconn_send tr h d w of
                  (Inl e, w') \<Rightarrow> (Inl e, w')
                | (Inr u, w') \<Rightarrow> (Inr True, w')))"

definition closeHost :: "phooks \<Rightarrow> transport \<Rightarrow> player \<Rightarrow> (error + unit) \<times> player" where
  "closeHost hk tr w =
     (case (case p_conn w of
              None \<Rightarrow> (Inr (), w)
            | Some h \<Rightarrow> try_catch (pconn_close hk tr h w)) of
        (Inl e, w1) \<Rightarrow> (Inl e, w1)
      | (Inr u, w1) \<Rightarrow> (Inr (), w1\<lparr>p_conn := None\<rparr>))"

text \<open>The \<^verbatim>\<open>open\<close> listener of the peer (lines 101 to 105).\<close>

definition player_on_peer_open :: "phooks \<Rightarrow> string \<Rightarrow> player \<Rightarrow> player" where
  "player_on_peer_open hk myId w =
     call_phook (p_handlePeerReady hk myId)
       (if (case p_conn w of None \<Rightarrow> True | Some h \<Rightarrow> \<not> pc_open (p_conns w h))
        then connectToHost w else w)"

subsection \<open>\<^verbatim>\<open>JillBagPlayer\<close>: events\<close>

datatype pevent =
    PPeerOpen string
  | PPeerError string
  | PPeerDisconnected
  | PConnOpen handle
  | PConnData handle jsval
  | PConnClose handle
  | PConnError handle string
  | PCallSendHost jsval
  | PCallCloseHost

fun player_step :: "phooks \<Rightarrow> transport \<Rightarrow> pevent \<Rightarrow> player \<Rightarrow> player" where
  "player_step hk tr (PPeerOpen myId) w = player_on_peer_open hk myId w"
| "player_step hk tr (PPeerError err) w = call_phook (p_handlePeerError hk err) w"
| "player_step hk tr PPeerDisconnected w = w\<lparr>p_peer_reconnects := Suc (p_peer_reconnects w)\<rparr>"
| "player_step hk tr (PConnOpen h) w =
     snd (pemit_open hk h (upd_pconn h (\<lambda>c. c\<lparr>pc_open := True\<rparr>) w))"
| "player_step hk tr (PConnData h d) w = pemit_data hk h d w"
| "player_step hk tr (PConnClose h) w = pemit_close hk h (upd_pconn h (\<lambda>c. c\<lparr>pc_open := False\<rparr>) w)"
| "player_step hk tr (PConnError h err) w = pemit_error hk h err w"
| "player_step hk tr (PCallSendHost d) w = snd (sendHost tr d w)"
| "player_step hk tr PCallCloseHost w = snd (closeHost hk tr w)"

definition player_run :: "phooks \<Rightarrow> transport \<Rightarrow> pevent list \<Rightarrow> player \<Rightarrow> player" where
  "player_run hk tr evs w = foldl (\<lambda>w' ev. player_step hk tr ev w') w evs"

subsection \<open>Sessions used as examples\<close>

text \<open>
  Three transports: one whose \<^verbatim>\<open>close()\<close> notifies before it returns, one that notifies
  in a later turn, and one whose \<^verbatim>\<open>close()\<close> and \<^verbatim>\<open>send\<close> throw.
  In \<open>seats\<close> the connections 10 and 11 declare the same identity and connection 12 another.
  \<open>host_after\<close> and \<open>player_after\<close> are a new host and a new player after a list of events,
  with the hooks of the classes and \<^verbatim>\<open>Math.random\<close> returning 0.
  In \<open>draws\<close> \<^verbatim>\<open>Math.random\<close> returns in turn 0, a double whose product with 26 is
  rounded up to 5, and the largest double below 1.
\<close>

definition notifying :: transport where
  "notifying = \<lparr> tr_close = (\<lambda>h. EmitsNow), tr_send_throws = (\<lambda>h d. False) \<rparr>"

definition deferring :: transport where
  "deferring = \<lparr> tr_close = (\<lambda>h. EmitsLater), tr_send_throws = (\<lambda>h d. False) \<rparr>"

definition failing :: transport where
  "failing = \<lparr> tr_close = (\<lambda>h. Throws), tr_send_throws = (\<lambda>h d. True) \<rparr>"

definition seats :: "handle \<Rightarrow> ident option" where
  "seats h = (if h = 10 \<or> h = 11 then Some ''QWERTYUIOP'' else if h = 12 then Some ''ASDFGHJKLZ'' else None)"

definition draws :: "nat \<Rightarrow> double01" where
  "draws j = (if j mod 3 = 0 then (0, 0)
              else if j mod 3 = 1 then (866076851417403, 52)
              else (9007199254740991, 53))"

definition host_after :: "transport \<Rightarrow> event list \<Rightarrow> host" where
  "host_after tr evs = host_run default_hooks tr evs (host_new (\<lambda>i. (0, 0)) seats)"

definition player_after :: "transport \<Rightarrow> pevent list \<Rightarrow> player" where
  "player_after tr evs = player_run default_phooks tr evs (player_new (\<lambda>i. (0, 0)) ''AAAAAA'')"

subsection \<open>Predicates on players and their events\<close>

text \<open>The slot holds a connection and that connection is open.\<close>

definition has_open_connection :: "player \<Rightarrow> bool" where
  "has_open_connection w = (case p_conn w of None \<Rightarrow> False | Some h \<Rightarrow> pc_open (p_conns w h))"

text \<open>The event is the signaling-ready notification, the \<^verbatim>\<open>open\<close> of the peer.\<close>

fun signaling_ready :: "pevent \<Rightarrow> bool" where
  "signaling_ready (PPeerOpen myId) = True"
| "signaling_ready ev = False"

text \<open>The call of \<^verbatim>\<open>_peer.connect\<close> that \<^verbatim>\<open>_connectToHost\<close> makes for a player.\<close>

definition dial_of :: "player \<Rightarrow> dial" where
  "dial_of w = \<lparr> d_target = ''JillBagHost'' @ p_hostId w,
                 d_metadata = JObj [(''id'', JStr (p_playerId w))],
                 d_serialization = ''json'' \<rparr>"

subsection \<open>The invariant of the host\<close>

text \<open>
  The keys of the registry are distinct, a connection is registered under the identity it
  declared, and the listeners on a connection captured the identity it declared.
\<close>

definition host_inv :: "host \<Rightarrow> bool" where
  "host_inv w =
     (distinct (map fst (others w)) \<and>
      (\<forall>(k, h) \<in> set (others w). c_metadata (conns w h) = Some k) \<and>
      (\<forall>h. \<forall>j \<in> set (c_subs (conns w h)). c_metadata (conns w h) = Some j))"

text \<open>
  \<open>shrinks w w'\<close>: from \<open>w\<close> to \<open>w'\<close> the registry has only lost entries, and no
  connection has changed its metadata or its listeners.
\<close>

definition shrinks :: "host \<Rightarrow> host \<Rightarrow> bool" where
  "shrinks w w' =
     ((\<exists>P. others w' = filter P (others w)) \<and>
      (\<forall>h. c_metadata (conns w' h) = c_metadata (conns w h) \<and>
           c_subs (conns w' h) = c_subs (conns w h)))"


subsection \<open>Hooks that send\<close>

text \<open>
  A close hook of the host that calls \<^verbatim>\<open>this.send(otherId, d)\<close> and prints what the call
  returned, and a close hook of the player that does the same with \<^verbatim>\<open>this.sendHost(d)\<close>.
  What such a hook prints is what the call prints, followed by the result.
\<close>

definition send_in_hook :: "transport \<Rightarrow> jsval \<Rightarrow> ident \<Rightarrow> host \<Rightarrow> line list" where
  "send_in_hook tr d otherId w =
     (case host_send tr otherId d w of
        (r, w') \<Rightarrow> drop (length (console w)) (console w') @
                   [(Info, [case r of Inl e \<Rightarrow> JStr ''exception'' | Inr b \<Rightarrow> JBool b])])"

definition sendHost_in_hook :: "transport \<Rightarrow> jsval \<Rightarrow> player \<Rightarrow> line list" where
  "sendHost_in_hook tr d w =
     (case sendHost tr d w of
        (r, w') \<Rightarrow> drop (length (p_console w)) (p_console w') @
                   [(Info, [case r of Inl e \<Rightarrow> JStr ''exception'' | Inr b \<Rightarrow> JBool b])])"

section \<open>Properties\<close>

subsection \<open>The \<^verbatim>\<open>Map\<close>\<close>

lemma map_get_delete: "map_get k (map_delete k m) = None"
  by (induction m) (auto simp: map_delete_def)

lemma map_get_delete_other: "k' \<noteq> k \<Longrightarrow> map_get k' (map_delete k m) = map_get k' m"
  by (induction m) (auto simp: map_delete_def)

lemma map_has_get: "map_has k m \<longleftrightarrow> map_get k m \<noteq> None"
  by (induction m) (auto simp: map_has_def)

lemma map_delete_absent: "map_get k m = None \<Longrightarrow> map_delete k m = m"
  by (induction m) (auto simp: map_delete_def split: if_splits)

lemma map_delete_idem: "map_delete k (map_delete k m) = map_delete k m"
  by (simp add: map_delete_def)

lemma map_set_absent: "map_get k m = None \<Longrightarrow> map_set k v m = m @ [(k, v)]"
  by (induction m) (auto split: if_splits)

lemma map_get_set: "map_get k (map_set k v m) = Some v"
  by (induction m) auto

lemma map_get_set_other: "k' \<noteq> k \<Longrightarrow> map_get k' (map_set k v m) = map_get k' m"
  by (induction m) auto

lemma keys_map_set:
  "map fst (map_set k v m) = (if k \<in> set (map fst m) then map fst m else map fst m @ [k])"
  by (induction m) (force split: if_splits)+

lemma distinct_map_set: "distinct (map fst m) \<Longrightarrow> distinct (map fst (map_set k v m))"
  by (simp add: keys_map_set)

lemma distinct_map_delete: "distinct (map fst m) \<Longrightarrow> distinct (map fst (map_delete k m))"
  by (simp add: map_delete_def distinct_map_filter)

lemma map_get_in_set: "map_get k m = Some v \<Longrightarrow> (k, v) \<in> set m"
  by (induction m) (auto split: if_splits)

lemma map_get_distinct: "distinct (map fst m) \<Longrightarrow> (k, v) \<in> set m \<Longrightarrow> map_get k m = Some v"
  by (induction m) (auto simp: rev_image_eqI)

subsection \<open>Frame lemmas of the host\<close>

lemma call_hook_simps [simp]:
  "others (call_hook f w) = others w"
  "conns (call_hook f w) = conns w"
  "hostId (call_hook f w) = hostId w"
  "peer_id (call_hook f w) = peer_id w"
  "peer_reconnects (call_hook f w) = peer_reconnects w"
  "console (call_hook f w) = console w @ f w"
  by (simp_all add: call_hook_def)

lemma upd_conn_simps [simp]:
  "others (upd_conn h f w) = others w"
  "conns (upd_conn h f w) = (conns w)(h := f (conns w h))"
  "hostId (upd_conn h f w) = hostId w"
  "peer_id (upd_conn h f w) = peer_id w"
  "peer_reconnects (upd_conn h f w) = peer_reconnects w"
  "console (upd_conn h f w) = console w"
  by (simp_all add: upd_conn_def)

lemma host_on_close_simps [simp]:
  "others (host_on_close hk i w) = map_delete i (others w)"
  "conns (host_on_close hk i w) = conns w"
  "hostId (host_on_close hk i w) = hostId w"
  "peer_id (host_on_close hk i w) = peer_id w"
  "peer_reconnects (host_on_close hk i w) = peer_reconnects w"
  by (simp_all add: host_on_close_def)

lemma fold_on_close:
  "others (foldl (\<lambda>w' i. host_on_close hk i w') w js) = filter (\<lambda>e. fst e \<notin> set js) (others w) \<and>
   conns (foldl (\<lambda>w' i. host_on_close hk i w') w js) = conns w \<and>
   hostId (foldl (\<lambda>w' i. host_on_close hk i w') w js) = hostId w \<and>
   peer_id (foldl (\<lambda>w' i. host_on_close hk i w') w js) = peer_id w \<and>
   peer_reconnects (foldl (\<lambda>w' i. host_on_close hk i w') w js) = peer_reconnects w"
proof (induction js arbitrary: w)
  case Nil
  show ?case by simp
next
  case (Cons j js)
  have "filter (\<lambda>e. fst e \<notin> set js) (map_delete j (others w)) = filter (\<lambda>e. fst e \<notin> set (j # js)) (others w)"
    by (auto simp: map_delete_def intro: filter_cong)
  with Cons [of "host_on_close hk j w"] show ?case by simp
qed

lemma emit_close_simps [simp]:
  "others (emit_close hk h w) = filter (\<lambda>e. fst e \<notin> set (c_subs (conns w h))) (others w)"
  "conns (emit_close hk h w) = conns w"
  "hostId (emit_close hk h w) = hostId w"
  "peer_id (emit_close hk h w) = peer_id w"
  "peer_reconnects (emit_close hk h w) = peer_reconnects w"
  by (simp_all add: emit_close_def fold_on_close)

subsection \<open>\<^verbatim>\<open>send\<close>\<close>

lemma conn_send_simps [simp]:
  "others (snd (conn_send tr h d w)) = others w"
  "tr_send_throws tr h d \<Longrightarrow> conn_send tr h d w = (Inl TransportError, w)"
  "\<not> tr_send_throws tr h d \<Longrightarrow>
     conn_send tr h d w = (Inr (), upd_conn h (\<lambda>c. c\<lparr>c_sent := c_sent c @ [d]\<rparr>) w)"
  by (simp_all add: conn_send_def)

lemma host_send_absent:
  assumes "\<not> (\<exists>h. map_get otherId (others w) = Some h \<and> c_open (conns w h))"
  shows "fst (host_send tr otherId d w) = Inr False"
    and "others (snd (host_send tr otherId d w)) = others w"
    and "conns (snd (host_send tr otherId d w)) = conns w"
  using assms by (auto simp: host_send_def split: option.splits)

lemma host_send_open:
  assumes "map_get otherId (others w) = Some h" and "c_open (conns w h)"
  shows "tr_send_throws tr h d \<Longrightarrow> host_send tr otherId d w = (Inl TransportError, w)"
    and "\<not> tr_send_throws tr h d \<Longrightarrow>
          host_send tr otherId d w = (Inr True, upd_conn h (\<lambda>c. c\<lparr>c_sent := c_sent c @ [d]\<rparr>) w)"
  using assms by (simp_all add: host_send_def)

text \<open>
  Claim C3, as amended.  \<^verbatim>\<open>send\<close> returns \<^verbatim>\<open>false\<close> and leaves the registry and every
  connection as they are when the identity has no entry or its connection is not open.
  Otherwise it hands the payload, unchanged, to the \<^verbatim>\<open>send\<close> of the handle and returns
  \<^verbatim>\<open>true\<close>, the registry and the other connections untouched.  The call of the handle's
  \<^verbatim>\<open>send\<close> is not guarded: \<^verbatim>\<open>send\<close> throws exactly when the identity has an open
  connection and the transport throws on the payload.  The registry is the same after
  every call.
\<close>

theorem host_send_contract:
  "(\<not> (\<exists>h. map_get otherId (others w) = Some h \<and> c_open (conns w h)) \<longrightarrow>
      fst (host_send tr otherId d w) = Inr False \<and>
      others (snd (host_send tr otherId d w)) = others w \<and>
      conns (snd (host_send tr otherId d w)) = conns w) \<and>
   (\<forall>h. map_get otherId (others w) = Some h \<and> c_open (conns w h) \<and> \<not> tr_send_throws tr h d \<longrightarrow>
      fst (host_send tr otherId d w) = Inr True \<and>
      others (snd (host_send tr otherId d w)) = others w \<and>
      conns (snd (host_send tr otherId d w)) =
        (conns w)(h := (conns w h)\<lparr>c_sent := c_sent (conns w h) @ [d]\<rparr>)) \<and>
   (\<forall>e. fst (host_send tr otherId d w) = Inl e \<longleftrightarrow>
      e = TransportError \<and>
      (\<exists>h. map_get otherId (others w) = Some h \<and> c_open (conns w h) \<and> tr_send_throws tr h d)) \<and>
   others (snd (host_send tr otherId d w)) = others w"
proof (intro conjI allI impI)
  assume a: "\<not> (\<exists>h. map_get otherId (others w) = Some h \<and> c_open (conns w h))"
  show "fst (host_send tr otherId d w) = Inr False"
    and "others (snd (host_send tr otherId d w)) = others w"
    and "conns (snd (host_send tr otherId d w)) = conns w"
    using host_send_absent [OF a] by simp_all
next
  fix h
  assume a: "map_get otherId (others w) = Some h \<and> c_open (conns w h) \<and> \<not> tr_send_throws tr h d"
  then have "host_send tr otherId d w = (Inr True, upd_conn h (\<lambda>c. c\<lparr>c_sent := c_sent c @ [d]\<rparr>) w)"
    by (simp add: host_send_open)
  then show "fst (host_send tr otherId d w) = Inr True"
    and "others (snd (host_send tr otherId d w)) = others w"
    and "conns (snd (host_send tr otherId d w)) =
           (conns w)(h := (conns w h)\<lparr>c_sent := c_sent (conns w h) @ [d]\<rparr>)"
    by simp_all
next
  fix e
  show "fst (host_send tr otherId d w) = Inl e \<longleftrightarrow>
      e = TransportError \<and>
      (\<exists>h. map_get otherId (others w) = Some h \<and> c_open (conns w h) \<and> tr_send_throws tr h d)"
    by (auto simp: host_send_def conn_send_def split: option.splits)
next
  show "others (snd (host_send tr otherId d w)) = others w"
    by (auto simp: host_send_def conn_send_def split: option.splits)
qed

lemma host_after_open1:
  "others (host_after tr [ConnOpen 10]) = [(''QWERTYUIOP'', 10)]"
  "c_open (conns (host_after tr [ConnOpen 10]) 10)"
  "c_sent (conns (host_after tr [ConnOpen 10]) 10) = []"
  by (simp_all add: host_after_def host_run_def host_new_def host_on_open_def seats_def
      host_evict_def host_track_def map_has_def Let_def)

theorem host_send_contract_witness:
  "fst (host_send deferring ''ASDFGHJKLZ'' JUndefined (host_after deferring [ConnOpen 10])) = Inr False \<and>
   others (snd (host_send deferring ''ASDFGHJKLZ'' JUndefined (host_after deferring [ConnOpen 10])))
     = [(''QWERTYUIOP'', 10)] \<and>
   fst (host_send deferring ''QWERTYUIOP'' JUndefined (host_after deferring [ConnOpen 10])) = Inr True \<and>
   c_sent (conns (snd (host_send deferring ''QWERTYUIOP'' JUndefined (host_after deferring [ConnOpen 10]))) 10)
     = [JUndefined]"
  using host_send_contract [of "''ASDFGHJKLZ''" "host_after deferring [ConnOpen 10]" deferring JUndefined]
    host_send_contract [of "''QWERTYUIOP''" "host_after deferring [ConnOpen 10]" deferring JUndefined]
  by (simp add: host_after_open1 deferring_def)

theorem host_send_throws_counterexample:
  "fst (host_send failing ''QWERTYUIOP'' (JObj [(''type'', JStr ''state'')])
          (host_after failing [ConnOpen 10])) = Inl TransportError"
  by (simp add: host_send_def host_after_open1 failing_def)

subsection \<open>\<^verbatim>\<open>close\<close>\<close>

lemma conn_close_again:
  "\<not> c_open c \<Longrightarrow> c\<lparr>c_closes := n, c_open := False\<rparr> = c\<lparr>c_closes := n\<rparr>"
  by (cases c) simp

lemma conn_close_simps [simp]:
  "fst (conn_close hk tr h w) = (if tr_close tr h = Throws then Inl TransportError else Inr ())"
  "others (snd (conn_close hk tr h w)) =
     (if tr_close tr h = EmitsNow \<and> c_open (conns w h)
      then filter (\<lambda>e. fst e \<notin> set (c_subs (conns w h))) (others w) else others w)"
  "conns (snd (conn_close hk tr h w)) =
     (conns w)(h := (conns w h)\<lparr>c_closes := Suc (c_closes (conns w h)),
                                c_open := c_open (conns w h) \<and> tr_close tr h = Throws\<rparr>)"
  "hostId (snd (conn_close hk tr h w)) = hostId w"
  "peer_id (snd (conn_close hk tr h w)) = peer_id w"
  "peer_reconnects (snd (conn_close hk tr h w)) = peer_reconnects w"
  by (cases "tr_close tr h"; simp add: conn_close_def Let_def conn_close_again)+

lemma host_close_simps [simp]:
  "fst (host_close hk tr i w) = Inr ()"
  "others (snd (host_close hk tr i w)) =
     map_delete i (case map_get i (others w) of None \<Rightarrow> others w
                   | Some h \<Rightarrow> others (snd (conn_close hk tr h w)))"
  "conns (snd (host_close hk tr i w)) =
     (case map_get i (others w) of None \<Rightarrow> conns w | Some h \<Rightarrow> conns (snd (conn_close hk tr h w)))"
  "hostId (snd (host_close hk tr i w)) = hostId w"
  "peer_id (snd (host_close hk tr i w)) = peer_id w"
  "peer_reconnects (snd (host_close hk tr i w)) = peer_reconnects w"
  by (simp_all add: host_close_def try_catch_def split: option.splits)

lemma host_close_absent: "map_get i (others w) = None \<Longrightarrow> host_close hk tr i w = (Inr (), w)"
  by (simp add: host_close_def map_delete_absent)

lemma host_close_removes: "map_get i (others (snd (host_close hk tr i w))) = None"
  by (simp add: map_get_delete)

text \<open>
  Claim C7.  \<^verbatim>\<open>close(identity)\<close> returns without an exception for every identity, host
  and transport, also a transport whose \<^verbatim>\<open>close()\<close> throws.  Afterwards the registry has
  no entry for the identity.  If it had one, the handle of that entry has received one
  more close request.  On an identity without an entry the call changes nothing, and a
  second call after a first leaves the host that the first call left.
\<close>

theorem host_close_idempotent:
  "fst (host_close hk tr i w) = Inr () \<and>
   \<not> map_has i (others (snd (host_close hk tr i w))) \<and>
   (\<forall>h. map_get i (others w) = Some h \<longrightarrow>
      c_closes (conns (snd (host_close hk tr i w)) h) = Suc (c_closes (conns w h))) \<and>
   (map_get i (others w) = None \<longrightarrow> snd (host_close hk tr i w) = w) \<and>
   host_close hk tr i (snd (host_close hk tr i w)) = host_close hk tr i w"
proof -
  have gone: "map_get i (others (snd (host_close hk tr i w))) = None"
    by (rule host_close_removes)
  have twice: "host_close hk tr i (snd (host_close hk tr i w)) = host_close hk tr i w"
    unfolding host_close_absent [OF gone] by (simp add: prod_eq_iff)
  have req: "\<forall>h. map_get i (others w) = Some h \<longrightarrow>
      c_closes (conns (snd (host_close hk tr i w)) h) = Suc (c_closes (conns w h))"
    by simp
  have noop: "map_get i (others w) = None \<longrightarrow> snd (host_close hk tr i w) = w"
    by (simp add: host_close_absent)
  from gone twice req noop show ?thesis
    by (simp add: map_has_get)
qed

lemma host_after_open2:
  "others (host_after failing [ConnOpen 10, ConnOpen 12]) = [(''QWERTYUIOP'', 10), (''ASDFGHJKLZ'', 12)]"
  "c_closes (conns (host_after failing [ConnOpen 10, ConnOpen 12]) 12) = 0"
  by (simp_all add: host_after_def host_run_def host_new_def host_on_open_def seats_def
      host_evict_def host_track_def map_has_def Let_def)

theorem host_close_idempotent_witness:
  "map_get ''ASDFGHJKLZ'' (others (host_after failing [ConnOpen 10, ConnOpen 12])) = Some 12 \<and>
   c_closes (conns (snd (host_close default_hooks failing ''ASDFGHJKLZ''
       (host_after failing [ConnOpen 10, ConnOpen 12]))) 12) = 1 \<and>
   map_get ''NOBODY'' (others (host_after failing [ConnOpen 10, ConnOpen 12])) = None \<and>
   snd (host_close default_hooks failing ''NOBODY'' (host_after failing [ConnOpen 10, ConnOpen 12]))
     = host_after failing [ConnOpen 10, ConnOpen 12]"
  using host_close_idempotent [of default_hooks failing "''ASDFGHJKLZ''"
      "host_after failing [ConnOpen 10, ConnOpen 12]"]
    host_close_idempotent [of default_hooks failing "''NOBODY''"
      "host_after failing [ConnOpen 10, ConnOpen 12]"]
  by (simp add: host_after_open2)

subsection \<open>Frame lemmas of the player\<close>

lemma call_phook_simps [simp]:
  "p_conn (call_phook f w) = p_conn w"
  "p_conns (call_phook f w) = p_conns w"
  "p_dials (call_phook f w) = p_dials w"
  "p_hostId (call_phook f w) = p_hostId w"
  "p_playerId (call_phook f w) = p_playerId w"
  "p_console (call_phook f w) = p_console w @ f w"
  by (simp_all add: call_phook_def)

lemma upd_pconn_simps [simp]:
  "p_conn (upd_pconn h f w) = p_conn w"
  "p_conns (upd_pconn h f w) = (p_conns w)(h := f (p_conns w h))"
  "p_dials (upd_pconn h f w) = p_dials w"
  "p_hostId (upd_pconn h f w) = p_hostId w"
  "p_playerId (upd_pconn h f w) = p_playerId w"
  "p_console (upd_pconn h f w) = p_console w"
  by (simp_all add: upd_pconn_def)

lemma player_on_close_simps [simp]:
  "p_conn (player_on_close hk w) = None"
  "p_conns (player_on_close hk w) = p_conns w"
  "p_dials (player_on_close hk w) = p_dials w"
  by (simp_all add: player_on_close_def)

lemma funpow_on_close:
  "p_conn ((player_on_close hk ^^ n) w) = (if n = 0 then p_conn w else None) \<and>
   p_conns ((player_on_close hk ^^ n) w) = p_conns w \<and>
   p_dials ((player_on_close hk ^^ n) w) = p_dials w"
  by (induction n) simp_all

lemma funpow_on_data:
  "p_conn ((player_on_data hk d ^^ n) w) = p_conn w \<and>
   p_conns ((player_on_data hk d ^^ n) w) = p_conns w \<and>
   p_dials ((player_on_data hk d ^^ n) w) = p_dials w"
  by (induction n) (simp_all add: player_on_data_def)

lemma funpow_on_error:
  "p_conn ((player_on_error hk err ^^ n) w) = p_conn w \<and>
   p_conns ((player_on_error hk err ^^ n) w) = p_conns w \<and>
   p_dials ((player_on_error hk err ^^ n) w) = p_dials w"
  by (induction n) (simp_all add: player_on_error_def)

lemma pemit_simps [simp]:
  "p_conn (pemit_close hk h w) = (if pc_subs (p_conns w h) = 0 then p_conn w else None)"
  "p_conns (pemit_close hk h w) = p_conns w"
  "p_dials (pemit_close hk h w) = p_dials w"
  "p_conn (pemit_data hk h d w) = p_conn w"
  "p_conns (pemit_data hk h d w) = p_conns w"
  "p_dials (pemit_data hk h d w) = p_dials w"
  "p_conn (pemit_error hk h err w) = p_conn w"
  "p_conns (pemit_error hk h err w) = p_conns w"
  "p_dials (pemit_error hk h err w) = p_dials w"
  by (simp_all add: pemit_close_def pemit_data_def pemit_error_def
      funpow_on_close funpow_on_data funpow_on_error)

lemma emit_times_on_open:
  "p_conn (snd (emit_times n (player_on_open hk) w)) = p_conn w \<and>
   p_dials (snd (emit_times n (player_on_open hk) w)) = p_dials w"
  by (induction n arbitrary: w) (auto simp: player_on_open_def split: option.splits)

lemma pemit_open_simps [simp]:
  "p_conn (snd (pemit_open hk h w)) = p_conn w"
  "p_dials (snd (pemit_open hk h w)) = p_dials w"
  by (simp_all add: pemit_open_def emit_times_on_open)

lemma pconn_close_simps [simp]:
  "fst (pconn_close hk tr h w) = (if tr_close tr h = Throws then Inl TransportError else Inr ())"
  "p_conn (snd (pconn_close hk tr h w)) =
     (if tr_close tr h = EmitsNow \<and> pc_open (p_conns w h) \<and> pc_subs (p_conns w h) \<noteq> 0
      then None else p_conn w)"
  "p_dials (snd (pconn_close hk tr h w)) = p_dials w"
  by (cases "tr_close tr h"; simp add: pconn_close_def Let_def)+

lemma sendHost_simps [simp]:
  "p_conn (snd (sendHost tr d w)) = p_conn w"
  "p_dials (snd (sendHost tr d w)) = p_dials w"
  by (auto simp: sendHost_def pconn_send_def split: option.splits)

lemma closeHost_simps [simp]:
  "fst (closeHost hk tr w) = Inr ()"
  "p_conn (snd (closeHost hk tr w)) = None"
  "p_dials (snd (closeHost hk tr w)) = p_dials w"
  by (simp_all add: closeHost_def try_catch_def split: option.splits)

lemma connectToHost_simps [simp]:
  "p_conn (connectToHost w) = Some (length (p_dials w))"
  "p_dials (connectToHost w) = p_dials w @
     [\<lparr> d_target = hostPeerId (p_hostId w), d_metadata = JObj [(''id'', JStr (p_playerId w))],
        d_serialization = ''json'' \<rparr>]"
  "p_hostId (connectToHost w) = p_hostId w"
  "p_playerId (connectToHost w) = p_playerId w"
  by (simp_all add: connectToHost_def Let_def)

subsection \<open>Connect attempts of the player\<close>



lemma player_step_dials:
  "p_dials (player_step hk tr ev w) =
     p_dials w @ (if signaling_ready ev \<and> \<not> has_open_connection w then [dial_of w] else [])"
  by (cases ev)
    (auto simp: player_on_peer_open_def has_open_connection_def dial_of_def hostPeerId_def
      split: option.splits)

lemma player_run_dials:
  "length (p_dials (player_run hk tr evs w)) \<le> length (p_dials w) + length (filter signaling_ready evs)"
proof (induction evs arbitrary: w)
  case Nil
  show ?case by (simp add: player_run_def)
next
  case (Cons ev evs)
  have "length (p_dials (player_run hk tr (ev # evs) w)) =
        length (p_dials (player_run hk tr evs (player_step hk tr ev w)))"
    by (simp add: player_run_def)
  also have "\<dots> \<le> length (p_dials (player_step hk tr ev w)) + length (filter signaling_ready evs)"
    by (rule Cons.IH)
  also have "\<dots> \<le> length (p_dials w) + length (filter signaling_ready (ev # evs))"
    by (simp add: player_step_dials)
  finally show ?case .
qed

text \<open>
  Claim C5.  Processing one event extends the list of connect attempts by exactly one
  attempt when the event is the signaling-ready notification and the slot holds no open
  connection, and leaves the list as it is in every other case: with an open connection,
  and for every event that is not the signaling-ready notification (data, close and error
  of a connection, its open, errors of the peer, the loss of signaling, calls of
  \<^verbatim>\<open>sendHost\<close> and \<^verbatim>\<open>closeHost\<close>).  Over a run the attempts made are at most the
  signaling-ready notifications received.
\<close>

theorem player_connect_attempts:
  "p_dials (player_step hk tr ev w) =
     p_dials w @ (if signaling_ready ev \<and> \<not> has_open_connection w then [dial_of w] else []) \<and>
   length (p_dials (player_run hk tr evs w)) \<le>
     length (p_dials w) + length (filter signaling_ready evs)"
  by (simp add: player_step_dials player_run_dials)

subsection \<open>\<^verbatim>\<open>randomString\<close> and the transport addresses\<close>

lemma bit_length_lower: "p \<noteq> 0 \<Longrightarrow> 2 ^ (bit_length p - 1) \<le> p"
proof (induction p rule: bit_length.induct)
  case (1 p)
  show ?case
  proof (cases "p div 2 = 0")
    case True
    with "1.prems" have "bit_length p = 1"
      by (simp add: bit_length.simps [of p] bit_length.simps [of 0])
    with "1.prems" show ?thesis by simp
  next
    case False
    from "1.IH" [OF "1.prems" False] have ih: "2 ^ (bit_length (p div 2) - 1) \<le> p div 2" .
    from False have pos: "bit_length (p div 2) \<noteq> 0"
      by (simp add: bit_length.simps [of "p div 2"])
    have "bit_length p = Suc (bit_length (p div 2))"
      using "1.prems" by (simp add: bit_length.simps [of p])
    then have "2 ^ (bit_length p - 1) = (2::nat) * 2 ^ (bit_length (p div 2) - 1)"
      using pos by (cases "bit_length (p div 2)") simp_all
    also have "\<dots> \<le> 2 * (p div 2)" using ih by simp
    also have "\<dots> \<le> p" by simp
    finally show ?thesis .
  qed
qed

text \<open>Rounding to 53 digits adds at most the fraction \<open>1 / 2 ^ 53\<close> of the number.\<close>

lemma round53_upper:
  assumes "53 < bit_length p"
  shows "round53 p * 2 ^ 53 \<le> p * 2 ^ 53 + p"
proof -
  define s where "s = bit_length p - 53"
  define q where "q = p div 2 ^ s"
  define rest where "rest = p mod 2 ^ s"
  define half :: nat where "half = 2 ^ (s - 1)"
  from assms have s: "0 < s" by (simp add: s_def)
  then have two: "(2::nat) ^ s = 2 * half"
    by (cases s) (simp_all add: half_def)
  have p: "p = q * 2 ^ s + rest"
    using div_mult_mod_eq [of p "2 ^ s"] by (simp add: q_def rest_def)
  have r: "round53 p = (if half < rest \<or> (rest = half \<and> odd q) then q + 1 else q) * 2 ^ s"
    using assms by (simp add: round53_def Let_def s_def q_def rest_def half_def)
  have near: "round53 p \<le> p + half"
  proof (cases "half < rest \<or> (rest = half \<and> odd q)")
    case True
    then have "half \<le> rest" by auto
    moreover from True have "round53 p = q * 2 ^ s + 2 * half" by (simp add: r two algebra_simps)
    ultimately show ?thesis using p by linarith
  next
    case False
    then have "round53 p = q * 2 ^ s" by (simp add: r)
    with p show ?thesis by linarith
  qed
  have "p \<noteq> 0"
  proof
    assume "p = 0"
    then have "bit_length p = 0" by (simp add: bit_length.simps [of 0])
    with assms show False by simp
  qed
  then have "2 ^ (bit_length p - 1) \<le> p" by (rule bit_length_lower)
  moreover have "bit_length p - 1 = (s - 1) + 53" using assms by (simp add: s_def)
  moreover have "(2::nat) ^ ((s - 1) + 53) = half * 2 ^ 53" unfolding half_def by (rule power_add)
  ultimately have small: "half * 2 ^ 53 \<le> p" by simp
  from near have "round53 p * 2 ^ 53 \<le> (p + half) * 2 ^ 53" by (rule mult_right_mono) simp
  also have "\<dots> = p * 2 ^ 53 + half * 2 ^ 53" by (rule add_mult_distrib)
  also have "\<dots> \<le> p * 2 ^ 53 + p" using small by (rule add_left_mono)
  finally show ?thesis .
qed

text \<open>A double below 1 is below 1 by more than that fraction of itself.\<close>

lemma unit_double_margin:
  assumes "is_unit_double (m, e)"
  shows "m * 2 ^ 53 + m < 2 ^ e * 2 ^ 53"
proof -
  define K :: nat where "K = 2 ^ 53"
  define X :: nat where "X = 2 ^ e"
  from assms have m: "m < K" "m < X" by (simp_all add: is_unit_double_def K_def X_def)
  have K: "0 < K" by (simp add: K_def)
  have "m * K + m < X * K"
  proof (cases "e \<le> 53")
    case True
    from m(2) have "Suc m \<le> X" by simp
    then have "Suc m * K \<le> X * K" by (rule mult_right_mono) simp
    with m(1) show ?thesis by simp
  next
    case False
    then have "54 \<le> e" by simp
    then have "(2::nat) ^ 54 \<le> 2 ^ e" by (rule power_increasing) simp
    moreover have "(2::nat) ^ 54 = 2 * K" by (simp add: K_def)
    ultimately have "2 * K \<le> X" by (simp add: X_def)
    then have big: "(2 * K) * K \<le> X * K" by (rule mult_right_mono) simp
    from m(1) K have "m * K < K * K" by simp
    with m(1) have "m * K + m < K * K + K" by linarith
    moreover from K have "K \<le> K * K" by simp
    moreover have "(2 * K) * K = K * K + K * K" by simp
    ultimately have "m * K + m < (2 * K) * K" by linarith
    with big show ?thesis by linarith
  qed
  then show ?thesis by (simp add: K_def X_def)
qed

text \<open>So the rounded product stays below the length, and the index is in range.\<close>

lemma random_index_less:
  assumes "is_unit_double r" and "0 < n"
  shows "random_index r n < n"
proof -
  obtain m e where r: "r = (m, e)" by (cases r)
  define K :: nat where "K = 2 ^ 53"
  define X :: nat where "X = 2 ^ e"
  have K: "0 < K" by (simp add: K_def)
  from assms(1) have me: "m < X" by (simp add: r is_unit_double_def X_def)
  have "round53 (m * n) < n * X"
  proof (cases "bit_length (m * n) \<le> 53")
    case True
    then have "round53 (m * n) = m * n" by (simp add: round53_def)
    with me assms(2) show ?thesis by (simp add: mult.commute)
  next
    case False
    then have "53 < bit_length (m * n)" by simp
    then have "round53 (m * n) * K \<le> (m * n) * K + m * n"
      unfolding K_def by (rule round53_upper)
    also have "\<dots> = n * (m * K + m)" by (simp add: algebra_simps)
    also have "\<dots> < n * (X * K)"
      using unit_double_margin [of m e] assms r by (simp add: K_def X_def)
    finally have "round53 (m * n) * K < (n * X) * K" by (simp add: mult.assoc)
    with K show ?thesis by simp
  qed
  then have "round53 (m * n) div X < n" by (rule less_mult_imp_div_less)
  then show ?thesis by (simp add: r random_index_def X_def)
qed

lemma char_at_in_range:
  assumes "is_unit_double r" and "alphabet \<noteq> []"
  shows "\<exists>c \<in> set alphabet. char_at alphabet (random_index r (length alphabet)) = [c]"
proof -
  from assms(2) have "0 < length alphabet" by simp
  with assms(1) have lt: "random_index r (length alphabet) < length alphabet"
    by (rule random_index_less)
  then have "alphabet ! random_index r (length alphabet) \<in> set alphabet" by (rule nth_mem)
  with lt show ?thesis by (simp add: char_at_def)
qed

lemma randomString_loop_chars:
  assumes "\<forall>j. is_unit_double (rnd j)" and "alphabet \<noteq> []"
  shows "length (randomString_loop rnd alphabet len i result) = length result + (len - i) \<and>
         set (randomString_loop rnd alphabet len i result) \<subseteq> set result \<union> set alphabet"
  using assms
proof (induction rnd alphabet len i result rule: randomString_loop.induct)
  case (1 rnd alphabet len i result)
  show ?case
  proof (cases "i < len")
    case False
    then show ?thesis by (simp add: randomString_loop.simps [of rnd alphabet len i result])
  next
    case True
    from "1.prems" have "is_unit_double (rnd i)" by simp
    from char_at_in_range [OF this "1.prems"(2)]
    obtain c where c: "c \<in> set alphabet"
      and at: "char_at alphabet (random_index (rnd i) (length alphabet)) = [c]"
      by blast
    have step: "randomString_loop rnd alphabet len i result =
                randomString_loop rnd alphabet len (Suc i) (result @ [c])"
      using True at by (simp add: randomString_loop.simps [of rnd alphabet len i result])
    from "1.IH" [OF True "1.prems"] at
    have "length (randomString_loop rnd alphabet len (Suc i) (result @ [c])) =
            length (result @ [c]) + (len - Suc i) \<and>
          set (randomString_loop rnd alphabet len (Suc i) (result @ [c])) \<subseteq>
            set (result @ [c]) \<union> set alphabet"
      by simp
    with True c show ?thesis unfolding step by auto
  qed
qed

lemma randomString_chars:
  assumes "\<forall>j. is_unit_double (rnd j)"
  shows "length (randomString rnd len uppercase) = len"
    and "set (randomString rnd len uppercase) \<subseteq> set uppercase"
  using randomString_loop_chars [OF assms, of uppercase len 0 "[]"]
  by (simp_all add: randomString_def uppercase_def)

text \<open>
  Claim C9.  With \<^verbatim>\<open>Math.random\<close> returning doubles of \<open>[0, 1)\<close> and the product with the
  length of the alphabet rounded as doubles are: the id of the host's peer is
  \<^verbatim>\<open>JillBagHost\<close> followed by the room code, which has six characters, all of them capital
  letters; the id of the player's peer is \<^verbatim>\<open>JillBagPlayer\<close> followed by the identity,
  which has ten characters, all of them capital letters.  For every string given to the
  player's constructor, the connect attempt made on the signaling-ready notification dials
  \<^verbatim>\<open>JillBagHost\<close> followed by that string, with the metadata object whose one property
  \<^verbatim>\<open>id\<close> is the identity.
\<close>

theorem transport_addresses:
  assumes "\<forall>j. is_unit_double (rnd j)"
  shows "peer_id (host_new rnd meta) = ''JillBagHost'' @ hostId (host_new rnd meta) \<and>
         length (hostId (host_new rnd meta)) = 6 \<and>
         set (hostId (host_new rnd meta)) \<subseteq> set ''ABCDEFGHIJKLMNOPQRSTUVWXYZ'' \<and>
         p_peer_id (player_new rnd room) = ''JillBagPlayer'' @ p_playerId (player_new rnd room) \<and>
         length (p_playerId (player_new rnd room)) = 10 \<and>
         set (p_playerId (player_new rnd room)) \<subseteq> set ''ABCDEFGHIJKLMNOPQRSTUVWXYZ'' \<and>
         p_dials (player_step hk tr (PPeerOpen myId) (player_new rnd room)) =
           [\<lparr> d_target = ''JillBagHost'' @ room,
              d_metadata = JObj [(''id'', JStr (p_playerId (player_new rnd room)))],
              d_serialization = ''json'' \<rparr>]"
proof -
  have h: "hostId (host_new rnd meta) = randomString rnd 6 uppercase"
    and hp: "peer_id (host_new rnd meta) = ''JillBagHost'' @ randomString rnd 6 uppercase"
    by (simp_all add: host_new_def Let_def hostPeerId_def)
  have p: "p_playerId (player_new rnd room) = randomString rnd 10 uppercase"
    and pp: "p_peer_id (player_new rnd room) = ''JillBagPlayer'' @ randomString rnd 10 uppercase"
    and pr: "p_hostId (player_new rnd room) = room"
    and pd: "p_dials (player_new rnd room) = []"
    and pc: "p_conn (player_new rnd room) = None"
    by (simp_all add: player_new_def Let_def playerPeerId_def)
  have up: "set uppercase = set ''ABCDEFGHIJKLMNOPQRSTUVWXYZ''"
    by (simp add: uppercase_def)
  have d: "p_dials (player_step hk tr (PPeerOpen myId) (player_new rnd room)) =
           [dial_of (player_new rnd room)]"
    using player_step_dials [of hk tr "PPeerOpen myId" "player_new rnd room"]
    by (simp add: has_open_connection_def pc pd)
  have len6: "length (randomString rnd 6 uppercase) = 6"
    and len10: "length (randomString rnd 10 uppercase) = 10"
    and set6: "set (randomString rnd 6 uppercase) \<subseteq> set ''ABCDEFGHIJKLMNOPQRSTUVWXYZ''"
    and set10: "set (randomString rnd 10 uppercase) \<subseteq> set ''ABCDEFGHIJKLMNOPQRSTUVWXYZ''"
    using randomString_chars [OF assms, of 6] randomString_chars [OF assms, of 10]
    unfolding up by blast+
  show ?thesis
    unfolding h hp p pp d
    using len6 len10 set6 set10 by (simp add: dial_of_def pr p)
qed

lemma draws_unit: "\<forall>j. is_unit_double (draws j)"
  by (simp add: draws_def is_unit_double_def)

lemma draws_bits:
  "bit_length 0 = 0"
  "bit_length 22517998136852478 = 55"
  "bit_length 234187180623265766 = 58"
  by (simp_all add: bit_length.simps)

lemma draws_index:
  "random_index (0, 0) (length uppercase) = 0"
  "random_index (866076851417403, 52) (length uppercase) = 5"
  "random_index (9007199254740991, 53) (length uppercase) = 25"
  by (simp_all add: uppercase_def random_index_def round53_def draws_bits Let_def)

lemma draws_chars:
  "char_at uppercase 0 = ''A''"
  "char_at uppercase 5 = ''F''"
  "char_at uppercase 25 = ''Z''"
  by (simp_all add: char_at_def uppercase_def)

lemma example_codes:
  "randomString draws 6 uppercase = ''AFZAFZ''"
  "randomString draws 10 uppercase = ''AFZAFZAFZA''"
  by (simp_all add: randomString_def randomString_loop.simps draws_def draws_index draws_chars)

theorem transport_addresses_witness:
  "peer_id (host_new draws seats) = ''JillBagHostAFZAFZ'' \<and>
   p_peer_id (player_new draws ''AFZAFZ'') = ''JillBagPlayerAFZAFZAFZA'' \<and>
   p_dials (player_step default_phooks notifying (PPeerOpen ''JillBagPlayerAFZAFZAFZA'')
              (player_new draws ''AFZAFZ'')) =
     [\<lparr> d_target = ''JillBagHostAFZAFZ'', d_metadata = JObj [(''id'', JStr ''AFZAFZAFZA'')],
        d_serialization = ''json'' \<rparr>]"
proof -
  have c: "hostId (host_new draws seats) = ''AFZAFZ''"
    "p_playerId (player_new draws ''AFZAFZ'') = ''AFZAFZAFZA''"
    by (simp_all add: host_new_def player_new_def Let_def example_codes)
  from transport_addresses [OF draws_unit, of seats "''AFZAFZ''" default_phooks notifying
      "''JillBagPlayerAFZAFZAFZA''"]
  show ?thesis by (simp add: c)
qed

subsection \<open>Every event keeps the invariant\<close>

lemma shrinks_refl: "shrinks w w"
  unfolding shrinks_def by (auto intro: exI [of _ "\<lambda>e. True"])

lemma shrinks_trans:
  assumes "shrinks w w1" and "shrinks w1 w2"
  shows "shrinks w w2"
proof -
  from assms obtain P Q where "others w1 = filter P (others w)" and "others w2 = filter Q (others w1)"
    unfolding shrinks_def by blast
  then have "others w2 = filter (\<lambda>e. P e \<and> Q e) (others w)" by simp
  with assms show ?thesis unfolding shrinks_def by auto
qed

lemma shrinks_inv:
  assumes "shrinks w w'" and "host_inv w"
  shows "host_inv w'"
proof -
  from assms(1) obtain P where P: "others w' = filter P (others w)"
    and same: "\<And>h. c_metadata (conns w' h) = c_metadata (conns w h)"
      "\<And>h. c_subs (conns w' h) = c_subs (conns w h)"
    unfolding shrinks_def by blast
  from assms(2) have "distinct (map fst (others w'))"
    unfolding host_inv_def P by (simp add: distinct_map_filter)
  moreover from assms(2) have "\<forall>(k, h) \<in> set (others w'). c_metadata (conns w' h) = Some k"
    unfolding host_inv_def P by (auto simp: same)
  moreover from assms(2) have "\<forall>h. \<forall>j \<in> set (c_subs (conns w' h)). c_metadata (conns w' h) = Some j"
    unfolding host_inv_def by (simp add: same)
  ultimately show ?thesis unfolding host_inv_def by blast
qed

lemma shrinksI:
  assumes "others w' = filter P (others w)"
    and "\<And>h. c_metadata (conns w' h) = c_metadata (conns w h)"
    and "\<And>h. c_subs (conns w' h) = c_subs (conns w h)"
  shows "shrinks w w'"
  using assms unfolding shrinks_def by blast

lemma shrinks_call_hook: "shrinks w (call_hook f w)"
  by (rule shrinksI [of _ "\<lambda>e. True"]) simp_all

lemma shrinks_emit_close: "shrinks w (emit_close hk h w)"
  by (rule shrinksI [of _ "\<lambda>e. fst e \<notin> set (c_subs (conns w h))"]) simp_all

lemma shrinks_closed: "shrinks w (upd_conn h (\<lambda>c. c\<lparr>c_open := b\<rparr>) w)"
  by (rule shrinksI [of _ "\<lambda>e. True"]) simp_all

lemma shrinks_conn_close: "shrinks w (snd (conn_close hk tr h w))"
  by (rule shrinksI [of _ "\<lambda>e. \<not> (tr_close tr h = EmitsNow \<and> c_open (conns w h)) \<or>
        fst e \<notin> set (c_subs (conns w h))"])
    (auto intro: filter_cong)

lemma shrinks_host_close: "shrinks w (snd (host_close hk tr i w))"
proof (cases "map_get i (others w)")
  case None
  then show ?thesis by (simp add: host_close_absent shrinks_refl)
next
  case (Some h)
  have "shrinks (snd (conn_close hk tr h w)) (snd (host_close hk tr i w))"
    by (rule shrinksI [of _ "\<lambda>e. fst e \<noteq> i"]) (simp_all add: Some map_delete_def)
  with shrinks_conn_close show ?thesis by (rule shrinks_trans)
qed

lemma shrinks_closeAll_loop: "shrinks w (snd (closeAll_loop hk tr es w))"
proof (induction es arbitrary: w)
  case Nil
  show ?case by (simp add: shrinks_refl)
next
  case (Cons e es)
  obtain k h where e: "e = (k, h)" by (cases e)
  show ?case
  proof (cases "map_get k (others w) = Some h")
    case False
    then show ?thesis using Cons [of w] by (simp add: e)
  next
    case True
    have "closeAll_loop hk tr (e # es) w = closeAll_loop hk tr es (snd (conn_close hk tr h w))"
      by (simp add: e True try_catch_def)
    with shrinks_trans [OF shrinks_conn_close Cons] show ?thesis by simp
  qed
qed

lemma closeAll_loop_returns: "fst (closeAll_loop hk tr es w) = Inr ()"
  by (induction es arbitrary: w) (auto simp: try_catch_def)

lemma host_closeAll_eq:
  "host_closeAll hk tr w = (Inr (), (snd (closeAll_loop hk tr (others w) w))\<lparr>others := []\<rparr>)"
proof -
  obtain r w1 where c: "closeAll_loop hk tr (others w) w = (r, w1)"
    by (cases "closeAll_loop hk tr (others w) w")
  with closeAll_loop_returns [of hk tr "others w" w] have "r = Inr ()" by simp
  with c show ?thesis by (simp add: host_closeAll_def map_clear_def)
qed

lemma host_closeAll_simps [simp]:
  "fst (host_closeAll hk tr w) = Inr ()"
  "others (snd (host_closeAll hk tr w)) = []"
  "conns (snd (host_closeAll hk tr w)) = conns (snd (closeAll_loop hk tr (others w) w))"
  by (simp_all add: host_closeAll_eq)

lemma shrinks_host_closeAll: "shrinks w (snd (host_closeAll hk tr w))"
proof -
  have "shrinks (snd (closeAll_loop hk tr (others w) w)) (snd (host_closeAll hk tr w))"
    by (rule shrinksI [of _ "\<lambda>e. False"]) simp_all
  with shrinks_closeAll_loop show ?thesis by (rule shrinks_trans)
qed

lemma fold_on_data:
  "others (foldl (\<lambda>w' i. host_on_data hk i d w') w js) = others w \<and>
   conns (foldl (\<lambda>w' i. host_on_data hk i d w') w js) = conns w \<and>
   peer_reconnects (foldl (\<lambda>w' i. host_on_data hk i d w') w js) = peer_reconnects w"
  by (induction js arbitrary: w) (simp_all add: host_on_data_def)

lemma fold_on_error:
  "others (foldl (\<lambda>w' i. host_on_error hk i err w') w js) = others w \<and>
   conns (foldl (\<lambda>w' i. host_on_error hk i err w') w js) = conns w \<and>
   peer_reconnects (foldl (\<lambda>w' i. host_on_error hk i err w') w js) = peer_reconnects w"
  by (induction js arbitrary: w) (simp_all add: host_on_error_def)

lemma emit_data_simps [simp]:
  "others (emit_data hk h d w) = others w"
  "conns (emit_data hk h d w) = conns w"
  "peer_reconnects (emit_data hk h d w) = peer_reconnects w"
  by (simp_all add: emit_data_def fold_on_data)

lemma emit_error_simps [simp]:
  "others (emit_error hk h err w) = others w"
  "conns (emit_error hk h err w) = conns w"
  "peer_reconnects (emit_error hk h err w) = peer_reconnects w"
  by (simp_all add: emit_error_def fold_on_error)

lemma host_send_frame [simp]:
  "others (snd (host_send tr i d w)) = others w"
  "c_metadata (conns (snd (host_send tr i d w)) h) = c_metadata (conns w h)"
  "c_subs (conns (snd (host_send tr i d w)) h) = c_subs (conns w h)"
  "c_closes (conns (snd (host_send tr i d w)) h) = c_closes (conns w h)"
  "c_open (conns (snd (host_send tr i d w)) h) = c_open (conns w h)"
  by (auto simp: host_send_def conn_send_def split: option.splits)

lemma shrinks_host_send: "shrinks w (snd (host_send tr i d w))"
  by (rule shrinksI [of _ "\<lambda>e. True"]) simp_all

lemma host_inv_new: "host_inv (host_new rnd meta)"
  by (simp add: host_inv_def host_new_def Let_def)

lemma host_track_simps [simp]:
  "others (host_track hk i h w) = map_set i h (others w)"
  "conns (host_track hk i h w) = (conns w)(h := (conns w h)\<lparr>c_subs := c_subs (conns w h) @ [i]\<rparr>)"
  "peer_reconnects (host_track hk i h w) = peer_reconnects w"
  by (simp_all add: host_track_def)

lemma set_map_set: "e \<in> set (map_set k v m) \<Longrightarrow> e = (k, v) \<or> e \<in> set m"
  by (induction m) (auto split: if_splits)

lemma host_inv_track:
  assumes "host_inv w" and "c_metadata (conns w h) = Some i"
  shows "host_inv (host_track hk i h w)"
proof -
  from assms(1) have "distinct (map fst (others (host_track hk i h w)))"
    by (simp add: host_inv_def distinct_map_set)
  moreover have "\<forall>(k, h') \<in> set (others (host_track hk i h w)).
      c_metadata (conns (host_track hk i h w) h') = Some k"
  proof (clarify)
    fix k h'
    assume "(k, h') \<in> set (others (host_track hk i h w))"
    then have "(k, h') = (i, h) \<or> (k, h') \<in> set (others w)"
      using set_map_set [of "(k, h')" i h "others w"] by simp
    then have "c_metadata (conns w h') = Some k"
      using assms by (auto simp: host_inv_def)
    then show "c_metadata (conns (host_track hk i h w) h') = Some k" by auto
  qed
  moreover have "\<forall>h'. \<forall>j \<in> set (c_subs (conns (host_track hk i h w) h')).
      c_metadata (conns (host_track hk i h w) h') = Some j"
    using assms by (auto simp: host_inv_def)
  ultimately show ?thesis unfolding host_inv_def by blast
qed

lemma host_evict_simps [simp]:
  "fst (host_evict hk tr i w) = Inr ()"
  "c_metadata (conns (snd (host_evict hk tr i w)) h) = c_metadata (conns w h)"
  by (simp_all add: host_evict_def split: option.splits)

lemma shrinks_host_evict: "shrinks w (snd (host_evict hk tr i w))"
  by (simp add: host_evict_def shrinks_host_close shrinks_refl)

lemma host_on_open_eq:
  "host_on_open hk tr h w =
     (case c_metadata (conns w h) of
        None \<Rightarrow> (Inl TypeError, w)
      | Some i \<Rightarrow> (Inr (), host_track hk i h (snd (host_evict hk tr i w))))"
proof (cases "c_metadata (conns w h)")
  case None
  then show ?thesis by (simp add: host_on_open_def)
next
  case (Some i)
  obtain r w1 where e: "host_evict hk tr i w = (r, w1)" by (cases "host_evict hk tr i w")
  with host_evict_simps(1) [of hk tr i w] have "r = Inr ()" by simp
  with e Some show ?thesis by (simp add: host_on_open_def)
qed

lemma host_inv_on_open:
  assumes "host_inv w"
  shows "host_inv (snd (host_on_open hk tr h w))"
proof (cases "c_metadata (conns w h)")
  case None
  with assms show ?thesis by (simp add: host_on_open_eq)
next
  case (Some i)
  have "host_inv (snd (host_evict hk tr i w))"
    using shrinks_host_evict assms by (rule shrinks_inv)
  moreover have "c_metadata (conns (snd (host_evict hk tr i w)) h) = Some i"
    using Some by simp
  ultimately have "host_inv (host_track hk i h (snd (host_evict hk tr i w)))"
    by (rule host_inv_track)
  with Some show ?thesis by (simp add: host_on_open_eq)
qed

lemma host_inv_step:
  assumes "host_inv w"
  shows "host_inv (host_step hk tr ev w)"
proof (cases ev)
  case (PeerOpen myId)
  with shrinks_inv [OF shrinks_call_hook assms] show ?thesis by simp
next
  case (PeerError err)
  with shrinks_inv [OF shrinks_call_hook assms] show ?thesis by simp
next
  case PeerDisconnected
  with assms show ?thesis by (simp add: host_inv_def)
next
  case (ConnOpen h)
  have "host_inv (upd_conn h (\<lambda>c. c\<lparr>c_open := True\<rparr>) w)"
    using shrinks_closed assms by (rule shrinks_inv)
  with ConnOpen show ?thesis by (simp add: host_inv_on_open)
next
  case (ConnData h d)
  have "shrinks w (emit_data hk h d w)" by (rule shrinksI [of _ "\<lambda>e. True"]) simp_all
  with ConnData assms show ?thesis by (simp add: shrinks_inv)
next
  case (ConnClose h)
  have "shrinks w (emit_close hk h (upd_conn h (\<lambda>c. c\<lparr>c_open := False\<rparr>) w))"
    using shrinks_closed shrinks_emit_close by (rule shrinks_trans)
  with ConnClose assms show ?thesis by (simp add: shrinks_inv)
next
  case (ConnError h err)
  have "shrinks w (emit_error hk h err w)" by (rule shrinksI [of _ "\<lambda>e. True"]) simp_all
  with ConnError assms show ?thesis by (simp add: shrinks_inv)
next
  case (CallSend i d)
  with shrinks_inv [OF shrinks_host_send assms] show ?thesis by simp
next
  case (CallClose i)
  with shrinks_inv [OF shrinks_host_close assms] show ?thesis by simp
next
  case CallCloseAll
  with shrinks_inv [OF shrinks_host_closeAll assms] show ?thesis by simp
qed

lemma host_inv_run:
  assumes "host_inv w"
  shows "host_inv (host_run hk tr evs w)"
  using assms
proof (induction evs arbitrary: w)
  case Nil
  then show ?case by (simp add: host_run_def)
next
  case (Cons ev evs)
  from Cons.IH [OF host_inv_step [OF Cons.prems]] show ?case by (simp add: host_run_def)
qed

lemma host_inv_reachable: "host_inv (host_run hk tr evs (host_new rnd meta))"
  by (rule host_inv_run [OF host_inv_new])

subsection \<open>Last connect wins\<close>

lemma shrinks_distinct:
  assumes "shrinks w w'" and "distinct (map fst (others w))"
  shows "distinct (map fst (others w'))"
proof -
  from assms(1) obtain P where "others w' = filter P (others w)"
    unfolding shrinks_def by blast
  with assms(2) show ?thesis by (simp add: distinct_map_filter)
qed

lemma distinct_step:
  assumes "distinct (map fst (others w))"
  shows "distinct (map fst (others (host_step hk tr ev w)))"
proof (cases ev)
  case (ConnOpen h)
  let ?w0 = "upd_conn h (\<lambda>c. c\<lparr>c_open := True\<rparr>) w"
  show ?thesis
  proof (cases "c_metadata (conns w h)")
    case None
    with ConnOpen assms show ?thesis by (simp add: host_on_open_eq)
  next
    case (Some i)
    have "distinct (map fst (others (snd (host_evict hk tr i ?w0))))"
      using shrinks_host_evict by (rule shrinks_distinct) (simp add: assms)
    then have "distinct (map fst (map_set i h (others (snd (host_evict hk tr i ?w0)))))"
      by (rule distinct_map_set)
    with ConnOpen Some show ?thesis by (simp add: host_on_open_eq)
  qed
next
  case (ConnClose h)
  have "shrinks w (emit_close hk h (upd_conn h (\<lambda>c. c\<lparr>c_open := False\<rparr>) w))"
    using shrinks_closed shrinks_emit_close by (rule shrinks_trans)
  from shrinks_distinct [OF this assms] ConnClose show ?thesis by simp
next
  case (CallClose i)
  from shrinks_distinct [OF shrinks_host_close assms] CallClose show ?thesis by simp
qed (use assms in simp_all)

lemma distinct_run:
  assumes "distinct (map fst (others w))"
  shows "distinct (map fst (others (host_run hk tr evs w)))"
  using assms
proof (induction evs arbitrary: w)
  case Nil
  then show ?case by (simp add: host_run_def)
next
  case (Cons ev evs)
  from Cons.IH [OF distinct_step [OF Cons.prems]] show ?case by (simp add: host_run_def)
qed

lemma open_on_taken_identity:
  fixes hk :: hooks and tr :: transport
  assumes m: "c_metadata (conns w h) = Some i" and g: "map_get i (others w) = Some h0"
  defines "w1 \<equiv> snd (host_evict hk tr i (upd_conn h (\<lambda>c. c\<lparr>c_open := True\<rparr>) w))"
  shows "c_closes (conns w1 h0) = Suc (c_closes (conns w h0))"
    and "\<not> map_has i (others w1)"
    and "host_step hk tr (ConnOpen h) w = host_track hk i h w1"
    and "others (host_step hk tr (ConnOpen h) w) = others w1 @ [(i, h)]"
proof -
  let ?w0 = "upd_conn h (\<lambda>c. c\<lparr>c_open := True\<rparr>) w"
  have has: "map_has i (others ?w0)" using g by (simp add: map_has_get)
  then have w1: "w1 = snd (host_close hk tr i ?w0)" by (simp add: w1_def host_evict_def)
  show "c_closes (conns w1 h0) = Suc (c_closes (conns w h0))"
    unfolding w1 using g by simp
  have gone: "map_get i (others w1) = None" unfolding w1 by (rule host_close_removes)
  then show "\<not> map_has i (others w1)" by (simp add: map_has_get)
  show step: "host_step hk tr (ConnOpen h) w = host_track hk i h w1"
    using m by (simp add: host_on_open_eq w1_def)
  show "others (host_step hk tr (ConnOpen h) w) = others w1 @ [(i, h)]"
    unfolding step using gone by (simp add: map_set_absent)
qed

text \<open>
  Claim C1.  After every sequence of events on a new host, the open notifications of
  inbound connections among them, the keys of the registry are distinct, and every event
  keeps them distinct.  When the open notification of a connection \<open>h\<close> that declares the
  identity \<open>i\<close> finds an entry of \<open>i\<close> for a handle \<open>h0\<close>, line 34 leaves a host \<open>w1\<close> in
  which \<open>h0\<close> has received one more close request and the registry has no entry for \<open>i\<close>;
  the connection \<open>h\<close> is inserted into that host, as the last entry of the registry.
\<close>

theorem last_connect_wins:
  "distinct (map fst (others (host_run hk tr evs (host_new rnd meta)))) \<and>
   (distinct (map fst (others w)) \<longrightarrow> distinct (map fst (others (host_step hk tr ev w)))) \<and>
   (c_metadata (conns w h) = Some i \<and> map_get i (others w) = Some h0 \<longrightarrow>
      (let w1 = snd (host_evict hk tr i (upd_conn h (\<lambda>c. c\<lparr>c_open := True\<rparr>) w)) in
         c_closes (conns w1 h0) = Suc (c_closes (conns w h0)) \<and>
         \<not> map_has i (others w1) \<and>
         host_step hk tr (ConnOpen h) w = host_track hk i h w1 \<and>
         others (host_step hk tr (ConnOpen h) w) = others w1 @ [(i, h)]))"
proof (intro conjI impI)
  show "distinct (map fst (others (host_run hk tr evs (host_new rnd meta))))"
    by (rule distinct_run) (simp add: host_new_def Let_def)
next
  assume "distinct (map fst (others w))"
  then show "distinct (map fst (others (host_step hk tr ev w)))" by (rule distinct_step)
next
  assume a: "c_metadata (conns w h) = Some i \<and> map_get i (others w) = Some h0"
  then have m: "c_metadata (conns w h) = Some i" and g: "map_get i (others w) = Some h0"
    by simp_all
  show "let w1 = snd (host_evict hk tr i (upd_conn h (\<lambda>c. c\<lparr>c_open := True\<rparr>) w)) in
         c_closes (conns w1 h0) = Suc (c_closes (conns w h0)) \<and>
         \<not> map_has i (others w1) \<and>
         host_step hk tr (ConnOpen h) w = host_track hk i h w1 \<and>
         others (host_step hk tr (ConnOpen h) w) = others w1 @ [(i, h)]"
    unfolding Let_def using open_on_taken_identity [OF m g] by blast
qed

lemma host_after_two:
  "c_metadata (conns (host_after notifying [ConnOpen 10, ConnOpen 12]) 11) = Some ''QWERTYUIOP''"
  "map_get ''QWERTYUIOP'' (others (host_after notifying [ConnOpen 10, ConnOpen 12])) = Some 10"
  "c_closes (conns (host_after notifying [ConnOpen 10, ConnOpen 12]) 10) = 0"
  "others (snd (host_evict default_hooks notifying ''QWERTYUIOP''
      (upd_conn 11 (\<lambda>c. c\<lparr>c_open := True\<rparr>) (host_after notifying [ConnOpen 10, ConnOpen 12]))))
     = [(''ASDFGHJKLZ'', 12)]"
  by code_simp+

theorem last_connect_wins_witness:
  "distinct (map fst (others (host_after notifying [ConnOpen 10, ConnOpen 12]))) \<and>
   c_metadata (conns (host_after notifying [ConnOpen 10, ConnOpen 12]) 11) = Some ''QWERTYUIOP'' \<and>
   map_get ''QWERTYUIOP'' (others (host_after notifying [ConnOpen 10, ConnOpen 12])) = Some 10 \<and>
   c_closes (conns (snd (host_evict default_hooks notifying ''QWERTYUIOP''
      (upd_conn 11 (\<lambda>c. c\<lparr>c_open := True\<rparr>) (host_after notifying [ConnOpen 10, ConnOpen 12])))) 10) = 1 \<and>
   others (host_step default_hooks notifying (ConnOpen 11)
      (host_after notifying [ConnOpen 10, ConnOpen 12])) = [(''ASDFGHJKLZ'', 12), (''QWERTYUIOP'', 11)]"
  using last_connect_wins [of default_hooks notifying "[ConnOpen 10, ConnOpen 12]" "\<lambda>i. (0, 0)" seats
      "host_after notifying [ConnOpen 10, ConnOpen 12]" "ConnOpen 11" 11 "''QWERTYUIOP''" 10]
  unfolding Let_def host_after_def [symmetric]
  by (simp add: host_after_two)

text \<open>
  Claim C2, on the code.  Two connections that declare the same identity open one after
  the other, then the close notification of the first, displaced one is delivered: its
  listener deletes the entry of the identity, which is the entry of the second connection.
  The registry is empty although the second connection is open.
\<close>

theorem displaced_close_drops_successor:
  "others (host_run hk tr [ConnOpen 10, ConnOpen 11] (host_new rnd seats)) = [(''QWERTYUIOP'', 11)] \<and>
   others (host_run hk tr [ConnOpen 10, ConnOpen 11, ConnClose 10] (host_new rnd seats)) = [] \<and>
   c_open (conns (host_run hk tr [ConnOpen 10, ConnOpen 11, ConnClose 10] (host_new rnd seats)) 11)"
  by (cases "tr_close tr 10")
    (simp_all add: host_run_def host_new_def Let_def seats_def host_on_open_eq host_evict_def
      map_has_def map_delete_def)

subsection \<open>\<^verbatim>\<open>closeAll\<close>\<close>

lemma map_get_filter_keys:
  "k \<notin> S \<Longrightarrow> map_get k (filter (\<lambda>e. fst e \<notin> S) m) = map_get k m"
  by (induction m) auto

lemma host_inv_subs:
  assumes "host_inv w" and "(k, h) \<in> set (others w)"
  shows "set (c_subs (conns w h)) \<subseteq> {k}"
proof
  fix j
  assume "j \<in> set (c_subs (conns w h))"
  with assms(1) have "c_metadata (conns w h) = Some j" by (simp add: host_inv_def)
  moreover from assms have "c_metadata (conns w h) = Some k" by (auto simp: host_inv_def)
  ultimately show "j \<in> {k}" by simp
qed

lemma host_inv_handles:
  assumes "host_inv w"
  shows "distinct (map snd (others w))"
proof -
  from assms have d: "distinct (map fst (others w))" by (simp add: host_inv_def)
  then have "distinct (others w)" by (simp add: distinct_map)
  moreover have "inj_on snd (set (others w))"
  proof (rule inj_onI)
    fix x y
    assume x: "x \<in> set (others w)" and y: "y \<in> set (others w)" and s: "snd x = snd y"
    from assms x have "c_metadata (conns w (snd x)) = Some (fst x)"
      by (cases x) (auto simp: host_inv_def)
    moreover from assms y have "c_metadata (conns w (snd y)) = Some (fst y)"
      by (cases y) (auto simp: host_inv_def)
    ultimately have "fst x = fst y" using s by simp
    with s show "x = y" by (simp add: prod_eq_iff)
  qed
  ultimately show ?thesis by (simp add: distinct_map)
qed

lemma closeAll_loop_peer:
  "peer_reconnects (snd (closeAll_loop hk tr es w)) = peer_reconnects w \<and>
   peer_id (snd (closeAll_loop hk tr es w)) = peer_id w \<and>
   hostId (snd (closeAll_loop hk tr es w)) = hostId w"
  by (induction es arbitrary: w) (auto simp: try_catch_def)

lemma closeAll_loop_conns:
  assumes "distinct (map fst es)" and "distinct (map snd es)"
    and "\<forall>(k, h) \<in> set es. map_get k (others w) = Some h \<and> set (c_subs (conns w h)) \<subseteq> {k}"
  shows "conns (snd (closeAll_loop hk tr es w)) =
     (\<lambda>h. if h \<in> snd ` set es
           then (conns w h)\<lparr>c_closes := Suc (c_closes (conns w h)),
                             c_open := c_open (conns w h) \<and> tr_close tr h = Throws\<rparr>
           else conns w h)"
  using assms
proof (induction es arbitrary: w)
  case Nil
  show ?case by simp
next
  case (Cons e es)
  obtain k h where e: "e = (k, h)" by (cases e)
  let ?w1 = "snd (conn_close hk tr h w)"
  from Cons.prems(3) have live: "map_get k (others w) = Some h"
    and subs: "set (c_subs (conns w h)) \<subseteq> {k}"
    by (simp_all add: e)
  have loop: "closeAll_loop hk tr (e # es) w = closeAll_loop hk tr es ?w1"
    by (simp add: e live try_catch_def)
  from Cons.prems(1,2) have fresh: "k \<notin> fst ` set es" "h \<notin> snd ` set es"
    and d: "distinct (map fst es)" "distinct (map snd es)"
    by (simp_all add: e)
  have rest: "\<forall>(k', h') \<in> set es.
      map_get k' (others ?w1) = Some h' \<and> set (c_subs (conns ?w1 h')) \<subseteq> {k'}"
  proof (clarify)
    fix k' h'
    assume m: "(k', h') \<in> set es"
    with fresh have ne: "k' \<noteq> k" "h' \<noteq> h" by force+
    from m Cons.prems(3) have old: "map_get k' (others w) = Some h'"
      "set (c_subs (conns w h')) \<subseteq> {k'}"
      by auto
    from ne(1) subs have "k' \<notin> set (c_subs (conns w h))" by auto
    then have "map_get k' (others ?w1) = map_get k' (others w)"
      by (simp add: map_get_filter_keys)
    with old ne show "map_get k' (others ?w1) = Some h' \<and> set (c_subs (conns ?w1 h')) \<subseteq> {k'}"
      by simp
  qed
  from Cons.IH [OF d rest] fresh(2) show ?case
    unfolding loop by (auto simp: e fun_eq_iff)
qed

text \<open>
  Claim C4.  On a host that satisfies the invariant, as every host reached from the
  constructor does, \<^verbatim>\<open>closeAll\<close> returns without an exception, whatever the transport
  does on \<^verbatim>\<open>close()\<close>, also when it throws.  Afterwards the registry is empty, every handle
  that was registered has received exactly one more close request, no other connection
  has changed, and no method of the peer was called: its id is the same and so is the
  number of reconnects.  On an empty registry the call changes nothing.
\<close>

theorem closeAll_empties_registry:
  assumes "host_inv w"
  shows "fst (host_closeAll hk tr w) = Inr () \<and>
         others (snd (host_closeAll hk tr w)) = [] \<and>
         (\<forall>(k, h) \<in> set (others w).
            c_closes (conns (snd (host_closeAll hk tr w)) h) = Suc (c_closes (conns w h))) \<and>
         (\<forall>h. h \<notin> snd ` set (others w) \<longrightarrow> conns (snd (host_closeAll hk tr w)) h = conns w h) \<and>
         peer_id (snd (host_closeAll hk tr w)) = peer_id w \<and>
         peer_reconnects (snd (host_closeAll hk tr w)) = peer_reconnects w \<and>
         (others w = [] \<longrightarrow> host_closeAll hk tr w = (Inr (), w))"
proof -
  from assms have d: "distinct (map fst (others w))" by (simp add: host_inv_def)
  have entries: "\<forall>(k, h) \<in> set (others w).
      map_get k (others w) = Some h \<and> set (c_subs (conns w h)) \<subseteq> {k}"
    using map_get_distinct [OF d] host_inv_subs [OF assms] by blast
  have c: "conns (snd (host_closeAll hk tr w)) =
     (\<lambda>h. if h \<in> snd ` set (others w)
           then (conns w h)\<lparr>c_closes := Suc (c_closes (conns w h)),
                             c_open := c_open (conns w h) \<and> tr_close tr h = Throws\<rparr>
           else conns w h)"
    using closeAll_loop_conns [OF d host_inv_handles [OF assms] entries] by simp
  have req: "\<forall>(k, h) \<in> set (others w).
      c_closes (conns (snd (host_closeAll hk tr w)) h) = Suc (c_closes (conns w h))"
    unfolding c by force
  have frame: "\<forall>h. h \<notin> snd ` set (others w) \<longrightarrow> conns (snd (host_closeAll hk tr w)) h = conns w h"
    unfolding c by simp
  have peer: "peer_id (snd (host_closeAll hk tr w)) = peer_id w"
    "peer_reconnects (snd (host_closeAll hk tr w)) = peer_reconnects w"
    by (simp_all add: host_closeAll_eq closeAll_loop_peer)
  have empty: "others w = [] \<longrightarrow> host_closeAll hk tr w = (Inr (), w)"
    by (simp add: host_closeAll_def map_clear_def)
  from req frame peer empty show ?thesis by simp
qed

lemma host_after_failing2:
  "others (host_after failing [ConnOpen 10, ConnOpen 12]) = [(''QWERTYUIOP'', 10), (''ASDFGHJKLZ'', 12)]"
  "c_closes (conns (host_after failing [ConnOpen 10, ConnOpen 12]) 10) = 0"
  "c_closes (conns (host_after failing [ConnOpen 10, ConnOpen 12]) 12) = 0"
  by code_simp+

theorem closeAll_empties_registry_witness:
  "fst (host_closeAll default_hooks failing (host_after failing [ConnOpen 10, ConnOpen 12])) = Inr () \<and>
   others (host_after failing [ConnOpen 10, ConnOpen 12]) = [(''QWERTYUIOP'', 10), (''ASDFGHJKLZ'', 12)] \<and>
   others (snd (host_closeAll default_hooks failing (host_after failing [ConnOpen 10, ConnOpen 12]))) = [] \<and>
   c_closes (conns (snd (host_closeAll default_hooks failing
      (host_after failing [ConnOpen 10, ConnOpen 12]))) 10) = 1 \<and>
   c_closes (conns (snd (host_closeAll default_hooks failing
      (host_after failing [ConnOpen 10, ConnOpen 12]))) 12) = 1"
proof -
  have inv: "host_inv (host_after failing [ConnOpen 10, ConnOpen 12])"
    unfolding host_after_def by (rule host_inv_reachable)
  from closeAll_empties_registry [OF inv, of default_hooks failing]
  show ?thesis by (simp add: host_after_failing2)
qed

subsection \<open>Errors of a connection\<close>

lemma fold_on_error_console:
  "foldl (\<lambda>w' i. host_on_error hk i err w') w js =
     w\<lparr>console := console (foldl (\<lambda>w' i. host_on_error hk i err w') w js)\<rparr>"
proof (induction js arbitrary: w)
  case Nil
  show ?case by simp
next
  case (Cons j js)
  let ?w1 = "host_on_error hk j err w"
  have "foldl (\<lambda>w' i. host_on_error hk i err w') ?w1 js =
        ?w1\<lparr>console := console (foldl (\<lambda>w' i. host_on_error hk i err w') ?w1 js)\<rparr>"
    by (rule Cons.IH)
  also have "\<dots> = w\<lparr>console := console (foldl (\<lambda>w' i. host_on_error hk i err w') ?w1 js)\<rparr>"
    by (simp add: host_on_error_def call_hook_def)
  finally show ?case by simp
qed

lemma funpow_on_error_console:
  "(player_on_error hk err ^^ n) w = w\<lparr>p_console := p_console ((player_on_error hk err ^^ n) w)\<rparr>"
proof (induction n)
  case 0
  show ?case by simp
next
  case (Suc n)
  let ?w1 = "(player_on_error hk err ^^ n) w"
  have "(player_on_error hk err ^^ Suc n) w = player_on_error hk err ?w1" by simp
  also have "\<dots> = ?w1\<lparr>p_console := p_console (player_on_error hk err ?w1)\<rparr>"
    by (simp add: player_on_error_def call_phook_def)
  also have "\<dots> = w\<lparr>p_console := p_console (player_on_error hk err ?w1)\<rparr>"
    by (subst Suc.IH) simp
  finally show ?case by simp
qed

lemma map_has_filter_keys:
  "map_has k (filter (\<lambda>e. fst e \<notin> S) m) \<longleftrightarrow> map_has k m \<and> k \<notin> S"
  by (induction m) (auto simp: map_has_def)

lemma map_has_delete: "map_has k (map_delete i m) \<longleftrightarrow> map_has k m \<and> k \<noteq> i"
  by (induction m) (auto simp: map_has_def map_delete_def)

lemma map_has_set: "map_has k (map_set i h m) \<longleftrightarrow> k = i \<or> map_has k m"
  by (auto simp: map_has_def keys_map_set)

lemma host_close_keys:
  assumes "host_inv w" and "k \<noteq> i"
  shows "map_has k (others (snd (host_close hk tr i w))) = map_has k (others w)"
proof (cases "map_get i (others w)")
  case None
  then show ?thesis by (simp add: host_close_absent)
next
  case (Some h)
  then have "(i, h) \<in> set (others w)" by (rule map_get_in_set)
  from host_inv_subs [OF assms(1) this] assms(2) have "k \<notin> set (c_subs (conns w h))" by auto
  with assms(2) Some show ?thesis by (simp add: map_has_delete map_has_filter_keys)
qed

lemma host_step_removal:
  assumes inv: "host_inv w" and before: "map_has k (others w)"
    and after: "\<not> map_has k (others (host_step hk tr ev w))"
  shows "(\<exists>h. ev = ConnClose h \<and> c_metadata (conns w h) = Some k) \<or> ev = CallClose k \<or> ev = CallCloseAll"
proof (cases ev)
  case (ConnOpen h)
  let ?w0 = "upd_conn h (\<lambda>c. c\<lparr>c_open := True\<rparr>) w"
  have inv0: "host_inv ?w0" using shrinks_closed inv by (rule shrinks_inv)
  show ?thesis
  proof (cases "c_metadata (conns w h)")
    case None
    with ConnOpen before after show ?thesis by (simp add: host_on_open_eq)
  next
    case (Some i)
    from ConnOpen Some after
    have gone: "\<not> map_has k (map_set i h (others (snd (host_evict hk tr i ?w0))))"
      by (simp add: host_on_open_eq)
    then have ne: "k \<noteq> i" and "\<not> map_has k (others (snd (host_evict hk tr i ?w0)))"
      by (simp_all add: map_has_set)
    with host_close_keys [OF inv0 ne, of hk tr] before have False
      by (simp add: host_evict_def split: if_splits)
    then show ?thesis ..
  qed
next
  case (ConnClose h)
  with before after have "k \<in> set (c_subs (conns w h))" by (simp add: map_has_filter_keys)
  with inv have "c_metadata (conns w h) = Some k" by (simp add: host_inv_def)
  with ConnClose show ?thesis by simp
next
  case (CallClose i)
  with host_close_keys [OF inv, of k i hk tr] before after show ?thesis by auto
qed (use before after in simp_all)

lemma player_step_clears:
  assumes "p_conn w \<noteq> None" and "p_conn (player_step hk tr ev w) = None"
  shows "(\<exists>h. ev = PConnClose h) \<or> ev = PCallCloseHost"
  using assms by (cases ev) (auto simp: player_on_peer_open_def split: if_splits)

text \<open>
  Processing the error notification of a connection changes nothing of the host but what
  is printed, and each listener called does nothing but call the error hook; the same
  holds for the player, whose slot stays as it is.  On a host that satisfies the
  invariant, an identity that has an entry before an event and none after it lost the
  entry to the close notification of a connection that declared the identity, to
  \<^verbatim>\<open>close\<close> of that identity or to \<^verbatim>\<open>closeAll\<close>.  A player's slot that holds a
  connection before an event and none after it was cleared by the close notification of
  a connection or by \<^verbatim>\<open>closeHost\<close>.
\<close>

lemma connection_error_frame:
  "host_step hk tr (ConnError h err) w = w\<lparr>console := console (host_step hk tr (ConnError h err) w)\<rparr> \<and>
   host_on_error hk i err w = call_hook (handleError hk i err) w \<and>
   player_step pk tr (PConnError h err) p =
     p\<lparr>p_console := p_console (player_step pk tr (PConnError h err) p)\<rparr> \<and>
   player_on_error pk err p = call_phook (p_handleError pk err) p \<and>
   (host_inv w \<and> map_has k (others w) \<and> \<not> map_has k (others (host_step hk tr ev w)) \<longrightarrow>
      (\<exists>h'. ev = ConnClose h' \<and> c_metadata (conns w h') = Some k) \<or> ev = CallClose k \<or>
      ev = CallCloseAll) \<and>
   (p_conn p \<noteq> None \<and> p_conn (player_step pk tr pev p) = None \<longrightarrow>
      (\<exists>h'. pev = PConnClose h') \<or> pev = PCallCloseHost)"
proof (intro conjI impI)
  show "host_step hk tr (ConnError h err) w = w\<lparr>console := console (host_step hk tr (ConnError h err) w)\<rparr>"
    using fold_on_error_console [of hk err w "c_subs (conns w h)"] by (simp add: emit_error_def)
  show "host_on_error hk i err w = call_hook (handleError hk i err) w"
    by (simp add: host_on_error_def)
  show "player_step pk tr (PConnError h err) p =
     p\<lparr>p_console := p_console (player_step pk tr (PConnError h err) p)\<rparr>"
    using funpow_on_error_console [where hk = pk and err = err and n = "pc_subs (p_conns p h)" and w = p]
    by (simp add: pemit_error_def)
  show "player_on_error pk err p = call_phook (p_handleError pk err) p"
    by (simp add: player_on_error_def)
next
  assume "host_inv w \<and> map_has k (others w) \<and> \<not> map_has k (others (host_step hk tr ev w))"
  then show "(\<exists>h'. ev = ConnClose h' \<and> c_metadata (conns w h') = Some k) \<or> ev = CallClose k \<or>
      ev = CallCloseAll"
    using host_step_removal [of w k hk tr ev] by blast
next
  assume "p_conn p \<noteq> None \<and> p_conn (player_step pk tr pev p) = None"
  then show "(\<exists>h'. pev = PConnClose h') \<or> pev = PCallCloseHost"
    using player_step_clears [of p pk tr pev] by blast
qed



lemma host_after_deferring1:
  "map_has ''QWERTYUIOP'' (others (host_after deferring [ConnOpen 10]))"
  "\<not> map_has ''QWERTYUIOP'' (others (host_step default_hooks deferring (ConnClose 10)
        (host_after deferring [ConnOpen 10])))"
  "others (host_after deferring [ConnOpen 10]) = [(''QWERTYUIOP'', 10)]"
  by code_simp+

lemma player_after_open:
  "p_conn (player_after deferring [PPeerOpen ''JillBagPlayerAAAAAAAAAA'', PConnOpen 0]) = Some 0"
  "p_conn (player_step default_phooks deferring (PConnClose 0)
     (player_after deferring [PPeerOpen ''JillBagPlayerAAAAAAAAAA'', PConnOpen 0])) = None"
  by code_simp+

lemma connection_error_frame_example:
  "map_has ''QWERTYUIOP'' (others (host_after deferring [ConnOpen 10])) \<and>
   \<not> map_has ''QWERTYUIOP'' (others (host_step default_hooks deferring (ConnClose 10)
        (host_after deferring [ConnOpen 10]))) \<and>
   c_metadata (conns (host_after deferring [ConnOpen 10]) 10) = Some ''QWERTYUIOP'' \<and>
   others (host_step default_hooks deferring (ConnError 10 ''lost'') (host_after deferring [ConnOpen 10]))
     = [(''QWERTYUIOP'', 10)] \<and>
   p_conn (player_after deferring [PPeerOpen ''JillBagPlayerAAAAAAAAAA'', PConnOpen 0]) = Some 0 \<and>
   p_conn (player_step default_phooks deferring (PConnClose 0)
     (player_after deferring [PPeerOpen ''JillBagPlayerAAAAAAAAAA'', PConnOpen 0])) = None \<and>
   p_conn (player_step default_phooks deferring (PConnError 0 ''lost'')
     (player_after deferring [PPeerOpen ''JillBagPlayerAAAAAAAAAA'', PConnOpen 0])) = Some 0"
proof -
  let ?w = "host_after deferring [ConnOpen 10]"
  let ?p = "player_after deferring [PPeerOpen ''JillBagPlayerAAAAAAAAAA'', PConnOpen 0]"
  have inv: "host_inv ?w" unfolding host_after_def by (rule host_inv_reachable)
  note host = connection_error_frame [where hk = default_hooks and tr = deferring and h = 10
      and err = "''lost''" and w = ?w and k = "''QWERTYUIOP''" and ev = "ConnClose 10"
      and pk = default_phooks and p = ?p and pev = "PConnClose 0"]
  note play = connection_error_frame [where pk = default_phooks and tr = deferring and h = 0
      and err = "''lost''" and p = ?p]
  have hyp: "host_inv ?w \<and> map_has ''QWERTYUIOP'' (others ?w) \<and>
      \<not> map_has ''QWERTYUIOP'' (others (host_step default_hooks deferring (ConnClose 10) ?w))"
    using inv host_after_deferring1(1,2) by blast
  have "(\<exists>h'. ConnClose 10 = ConnClose h' \<and> c_metadata (conns ?w h') = Some ''QWERTYUIOP'') \<or>
      ConnClose 10 = CallClose ''QWERTYUIOP'' \<or> ConnClose 10 = CallCloseAll"
    using host [THEN conjunct2, THEN conjunct2, THEN conjunct2, THEN conjunct2, THEN conjunct1] hyp
    by (rule mp)
  then have m: "c_metadata (conns ?w 10) = Some ''QWERTYUIOP''"
    by auto
  from host have "others (host_step default_hooks deferring (ConnError 10 ''lost'') ?w) =
      others (?w\<lparr>console := console (host_step default_hooks deferring (ConnError 10 ''lost'') ?w)\<rparr>)"
    by metis
  then have e: "others (host_step default_hooks deferring (ConnError 10 ''lost'') ?w) = [(''QWERTYUIOP'', 10)]"
    by (simp add: host_after_deferring1)
  from play have "p_conn (player_step default_phooks deferring (PConnError 0 ''lost'') ?p) =
      p_conn (?p\<lparr>p_console := p_console (player_step default_phooks deferring (PConnError 0 ''lost'') ?p)\<rparr>)"
    by metis
  then have pe: "p_conn (player_step default_phooks deferring (PConnError 0 ''lost'') ?p) = Some 0"
    by (simp add: player_after_open)
  from m e pe host_after_deferring1(1,2) player_after_open show ?thesis by blast
qed

text \<open>
  Claim C8, on the code.  The entry of a connection and the slot are also cleared by the
  close notification of another connection.  On the host, connection 11 has displaced
  connection 10 under the same identity, and the close notification of connection 10
  deletes the entry of connection 11, which is open.  On the player, \<^verbatim>\<open>closeHost\<close> has
  closed connection 0, whose notification is still to come, the next signaling-ready
  notification has dialled connection 1, which is open and in the slot, and the close
  notification of connection 0 sets the slot to \<^verbatim>\<open>null\<close>.
\<close>

theorem foreign_close_notification_clears:
  "map_get ''QWERTYUIOP'' (others (host_after deferring [ConnOpen 10, ConnOpen 11])) = Some 11 \<and>
   others (host_step default_hooks deferring (ConnClose 10)
      (host_after deferring [ConnOpen 10, ConnOpen 11])) = [] \<and>
   c_open (conns (host_step default_hooks deferring (ConnClose 10)
      (host_after deferring [ConnOpen 10, ConnOpen 11])) 11) \<and>
   p_conn (player_after deferring
      [PPeerOpen ''JillBagPlayerAAAAAAAAAA'', PConnOpen 0, PCallCloseHost,
       PPeerOpen ''JillBagPlayerAAAAAAAAAA'', PConnOpen 1]) = Some 1 \<and>
   p_conn (player_step default_phooks deferring (PConnClose 0) (player_after deferring
      [PPeerOpen ''JillBagPlayerAAAAAAAAAA'', PConnOpen 0, PCallCloseHost,
       PPeerOpen ''JillBagPlayerAAAAAAAAAA'', PConnOpen 1])) = None \<and>
   pc_open (p_conns (player_step default_phooks deferring (PConnClose 0) (player_after deferring
      [PPeerOpen ''JillBagPlayerAAAAAAAAAA'', PConnOpen 0, PCallCloseHost,
       PPeerOpen ''JillBagPlayerAAAAAAAAAA'', PConnOpen 1])) 1)"
  by code_simp

subsection \<open>The close notification of the player's connection\<close>

lemma sendHost_empty_slot:
  "p_conn w = None \<Longrightarrow>
   sendHost tr d w = (Inr False, w\<lparr>p_console := p_console w @ [(Warning, [JStr ''No open connection to host.''])]\<rparr>)"
  by (simp add: sendHost_def)

lemma sendHost_in_hook_empty_slot:
  "p_conn w = None \<Longrightarrow>
   sendHost_in_hook tr d w = [(Warning, [JStr ''No open connection to host.'']), (Info, [JBool False])]"
  by (simp add: sendHost_in_hook_def sendHost_empty_slot)

lemma funpow_on_close_probe:
  "p_console ((player_on_close (hk\<lparr>p_handleClose := sendHost_in_hook tr d\<rparr>) ^^ n) w) =
     p_console w @ concat (replicate n
       [(Warning, [JStr ''No open connection to host.'']), (Info, [JBool False])])"
proof (induction n arbitrary: w)
  case 0
  show ?case by simp
next
  case (Suc n)
  let ?f = "player_on_close (hk\<lparr>p_handleClose := sendHost_in_hook tr d\<rparr>)"
  have "(?f ^^ Suc n) w = (?f ^^ n) (?f w)" by (simp add: funpow_swap1)
  moreover have "p_console (?f w) = p_console w @
      [(Warning, [JStr ''No open connection to host.'']), (Info, [JBool False])]"
    by (simp add: player_on_close_def call_phook_def sendHost_in_hook_empty_slot)
  ultimately show ?case by (simp add: Suc.IH)
qed

lemma emit_times_on_open_subs:
  assumes "p_conn w = Some c"
  shows "fst (emit_times n (player_on_open hk) w) = Inr () \<and>
         pc_subs (p_conns (snd (emit_times n (player_on_open hk) w)) c) = pc_subs (p_conns w c) + n"
  using assms
proof (induction n arbitrary: w)
  case 0
  show ?case by simp
next
  case (Suc n)
  let ?w1 = "call_phook (p_handleOpen hk) (upd_pconn c (\<lambda>x. x\<lparr>pc_subs := Suc (pc_subs x)\<rparr>) w)"
  from Suc.prems have one: "player_on_open hk w = (Inr (), ?w1)" by (simp add: player_on_open_def)
  have "p_conn ?w1 = Some c" using Suc.prems by simp
  from Suc.IH [OF this] one show ?case by simp
qed

text \<open>
  Claim C6.  Processing the close notification of a connection on which the open
  notification has put the listeners clears the slot, and only then calls the close hook:
  the first listener called applies the hook to a player whose slot is empty, on which
  \<^verbatim>\<open>sendHost\<close> prints its warning and returns \<^verbatim>\<open>false\<close>, whatever the transport and the
  payload.  With a close hook that calls \<^verbatim>\<open>sendHost\<close> and prints the result, every call
  of the hook made by the notification prints the warning and \<^verbatim>\<open>false\<close>.  The open
  notification of the connection in the slot is what puts the listeners on it.
\<close>

theorem player_close_listener_order:
  "p_conn (player_step hk tr (PConnClose h) w) =
     (if pc_subs (p_conns w h) = 0 then p_conn w else None) \<and>
   (pc_subs (p_conns w h) = Suc n \<longrightarrow>
      player_step hk tr (PConnClose h) w =
        (player_on_close hk ^^ n)
          (call_phook (p_handleClose hk)
             ((upd_pconn h (\<lambda>c. c\<lparr>pc_open := False\<rparr>) w)\<lparr>p_conn := None\<rparr>)) \<and>
      sendHost tr d ((upd_pconn h (\<lambda>c. c\<lparr>pc_open := False\<rparr>) w)\<lparr>p_conn := None\<rparr>) =
        (Inr False,
         (upd_pconn h (\<lambda>c. c\<lparr>pc_open := False\<rparr>) w)
           \<lparr>p_conn := None,
            p_console := p_console w @ [(Warning, [JStr ''No open connection to host.''])]\<rparr>)) \<and>
   p_console (player_step (hk\<lparr>p_handleClose := sendHost_in_hook tr d\<rparr>) tr (PConnClose h) w) =
     p_console w @ concat (replicate (pc_subs (p_conns w h))
       [(Warning, [JStr ''No open connection to host.'']), (Info, [JBool False])]) \<and>
   (p_conn w = Some h \<and> pc_opens (p_conns w h) = Suc m \<longrightarrow>
      pc_subs (p_conns (player_step hk tr (PConnOpen h) w) h) = pc_subs (p_conns w h) + Suc m)"
proof (intro conjI impI)
  show "p_conn (player_step hk tr (PConnClose h) w) =
     (if pc_subs (p_conns w h) = 0 then p_conn w else None)"
    by simp
next
  assume n: "pc_subs (p_conns w h) = Suc n"
  let ?w0 = "upd_pconn h (\<lambda>c. c\<lparr>pc_open := False\<rparr>) w"
  have "player_step hk tr (PConnClose h) w = (player_on_close hk ^^ Suc n) ?w0"
    by (simp add: pemit_close_def n)
  also have "\<dots> = (player_on_close hk ^^ n) (player_on_close hk ?w0)"
    by (simp add: funpow_swap1)
  finally show "player_step hk tr (PConnClose h) w =
        (player_on_close hk ^^ n) (call_phook (p_handleClose hk) (?w0\<lparr>p_conn := None\<rparr>))"
    by (simp add: player_on_close_def)
  show "sendHost tr d (?w0\<lparr>p_conn := None\<rparr>) =
        (Inr False,
         ?w0\<lparr>p_conn := None,
             p_console := p_console w @ [(Warning, [JStr ''No open connection to host.''])]\<rparr>)"
    by (simp add: sendHost_empty_slot)
next
  show "p_console (player_step (hk\<lparr>p_handleClose := sendHost_in_hook tr d\<rparr>) tr (PConnClose h) w) =
     p_console w @ concat (replicate (pc_subs (p_conns w h))
       [(Warning, [JStr ''No open connection to host.'']), (Info, [JBool False])])"
    by (simp add: pemit_close_def funpow_on_close_probe)
next
  assume a: "p_conn w = Some h \<and> pc_opens (p_conns w h) = Suc m"
  let ?w0 = "upd_pconn h (\<lambda>c. c\<lparr>pc_open := True\<rparr>) w"
  from a have "p_conn ?w0 = Some h" by simp
  from emit_times_on_open_subs [OF this, of "Suc m" hk] a
  show "pc_subs (p_conns (player_step hk tr (PConnOpen h) w) h) = pc_subs (p_conns w h) + Suc m"
    by (simp add: pemit_open_def)
qed

lemma player_after_wired:
  "p_conn (player_after deferring [PPeerOpen ''JillBagPlayerAAAAAAAAAA'']) = Some 0"
  "pc_opens (p_conns (player_after deferring [PPeerOpen ''JillBagPlayerAAAAAAAAAA'']) 0) = Suc 0"
  "pc_subs (p_conns (player_after deferring [PPeerOpen ''JillBagPlayerAAAAAAAAAA'']) 0) = 0"
  "player_step default_phooks deferring (PConnOpen 0)
     (player_after deferring [PPeerOpen ''JillBagPlayerAAAAAAAAAA''])
   = player_after deferring [PPeerOpen ''JillBagPlayerAAAAAAAAAA'', PConnOpen 0]"
  "p_conn (player_after deferring [PPeerOpen ''JillBagPlayerAAAAAAAAAA'', PConnOpen 0]) = Some 0"
  by (simp_all add: player_after_def player_run_def player_new_def Let_def
      player_on_peer_open_def connectToHost_def)

theorem player_close_listener_order_witness:
  "p_conn (player_after deferring [PPeerOpen ''JillBagPlayerAAAAAAAAAA'', PConnOpen 0]) = Some 0 \<and>
   pc_subs (p_conns (player_after deferring [PPeerOpen ''JillBagPlayerAAAAAAAAAA'', PConnOpen 0]) 0)
     = Suc 0 \<and>
   p_conn (player_step default_phooks deferring (PConnClose 0)
     (player_after deferring [PPeerOpen ''JillBagPlayerAAAAAAAAAA'', PConnOpen 0])) = None \<and>
   p_console (player_step (default_phooks\<lparr>p_handleClose := sendHost_in_hook deferring JNull\<rparr>)
       deferring (PConnClose 0)
       (player_after deferring [PPeerOpen ''JillBagPlayerAAAAAAAAAA'', PConnOpen 0])) =
     p_console (player_after deferring [PPeerOpen ''JillBagPlayerAAAAAAAAAA'', PConnOpen 0]) @
       [(Warning, [JStr ''No open connection to host.'']), (Info, [JBool False])]"
proof -
  let ?w = "player_after deferring [PPeerOpen ''JillBagPlayerAAAAAAAAAA'']"
  let ?w1 = "player_after deferring [PPeerOpen ''JillBagPlayerAAAAAAAAAA'', PConnOpen 0]"
  note opened = player_close_listener_order [where hk = default_phooks and tr = deferring
      and h = 0 and w = ?w and m = 0]
  have subs: "pc_subs (p_conns ?w1 0) = Suc 0"
    using opened [THEN conjunct2, THEN conjunct2, THEN conjunct2]
    unfolding player_after_wired(4) by (simp add: player_after_wired(1,2,3))
  note closed = player_close_listener_order [where hk = default_phooks and tr = deferring
      and h = 0 and w = ?w1 and d = JNull and n = 0]
  have gone: "p_conn (player_step default_phooks deferring (PConnClose 0) ?w1) = None"
    using closed [THEN conjunct1] by (simp only: subs) simp
  have printed: "p_console (player_step (default_phooks\<lparr>p_handleClose := sendHost_in_hook deferring JNull\<rparr>)
       deferring (PConnClose 0) ?w1) =
     p_console ?w1 @ [(Warning, [JStr ''No open connection to host.'']), (Info, [JBool False])]"
    using closed [THEN conjunct2, THEN conjunct2, THEN conjunct1] by (simp only: subs) simp
  from player_after_wired(5) subs gone printed show ?thesis by blast
qed

subsection \<open>The close notification of a registered connection\<close>

lemma host_send_no_entry:
  "map_get i (others w) = None \<Longrightarrow>
   host_send tr i d w =
     (Inr False, w\<lparr>console := console w @ [(Warning, [JStr (''No open connection to '' @ i)])]\<rparr>)"
  by (simp add: host_send_def)

lemma send_in_hook_no_entry:
  "map_get i (others w) = None \<Longrightarrow>
   send_in_hook tr d i w = [(Warning, [JStr (''No open connection to '' @ i)]), (Info, [JBool False])]"
  by (simp add: send_in_hook_def host_send_no_entry)

lemma fold_on_close_probe:
  "console (foldl (\<lambda>w' j. host_on_close (hk\<lparr>handleClose := send_in_hook tr d\<rparr>) j w') w js) =
     console w @ concat (map (\<lambda>j. [(Warning, [JStr (''No open connection to '' @ j)]),
                                      (Info, [JBool False])]) js)"
proof (induction js arbitrary: w)
  case Nil
  show ?case by simp
next
  case (Cons j js)
  have "console (host_on_close (hk\<lparr>handleClose := send_in_hook tr d\<rparr>) j w) =
      console w @ [(Warning, [JStr (''No open connection to '' @ j)]), (Info, [JBool False])]"
    by (simp add: host_on_close_def call_hook_def send_in_hook_no_entry map_get_delete)
  then show ?case by (simp add: Cons.IH)
qed

text \<open>
  Claim C10.  Processing the close notification of a connection removes from the registry
  the identities that its close listeners captured, and each listener deletes the entry
  before it calls the close hook: the first listener called applies the hook to a host
  whose registry has no entry for the identity, on which \<^verbatim>\<open>send\<close> to that identity prints
  its warning and returns \<^verbatim>\<open>false\<close>, whatever the transport and the payload.  With a close
  hook that calls \<^verbatim>\<open>send\<close> and prints the result, every call of the hook made by the
  notification prints the warning and \<^verbatim>\<open>false\<close>.  The open notification of a connection
  is what registers it and puts on it the listeners that capture the identity it declared;
  after its close notification the identity has no entry.
\<close>

theorem host_close_listener_order:
  "others (host_step hk tr (ConnClose h) w) =
     filter (\<lambda>e. fst e \<notin> set (c_subs (conns w h))) (others w) \<and>
   (c_subs (conns w h) = i # js \<longrightarrow>
      host_step hk tr (ConnClose h) w =
        foldl (\<lambda>w' j. host_on_close hk j w')
          (call_hook (handleClose hk i)
             ((upd_conn h (\<lambda>c. c\<lparr>c_open := False\<rparr>) w)\<lparr>others := map_delete i (others w)\<rparr>)) js \<and>
      \<not> map_has i (map_delete i (others w)) \<and>
      host_send tr i d ((upd_conn h (\<lambda>c. c\<lparr>c_open := False\<rparr>) w)\<lparr>others := map_delete i (others w)\<rparr>) =
        (Inr False,
         (upd_conn h (\<lambda>c. c\<lparr>c_open := False\<rparr>) w)
           \<lparr>others := map_delete i (others w),
            console := console w @ [(Warning, [JStr (''No open connection to '' @ i)])]\<rparr>)) \<and>
   console (host_step (hk\<lparr>handleClose := send_in_hook tr d\<rparr>) tr (ConnClose h) w) =
     console w @ concat (map (\<lambda>j. [(Warning, [JStr (''No open connection to '' @ j)]),
                                      (Info, [JBool False])]) (c_subs (conns w h))) \<and>
   (c_metadata (conns w h) = Some i \<longrightarrow>
      map_get i (others (host_step hk tr (ConnOpen h) w)) = Some h \<and>
      c_subs (conns (host_step hk tr (ConnOpen h) w) h) = c_subs (conns w h) @ [i] \<and>
      \<not> map_has i (others (host_step hk tr (ConnClose h) (host_step hk tr (ConnOpen h) w))))"
proof (intro conjI impI)
  show "others (host_step hk tr (ConnClose h) w) =
     filter (\<lambda>e. fst e \<notin> set (c_subs (conns w h))) (others w)"
    by simp
next
  assume subs: "c_subs (conns w h) = i # js"
  let ?w0 = "upd_conn h (\<lambda>c. c\<lparr>c_open := False\<rparr>) w"
  show "host_step hk tr (ConnClose h) w =
        foldl (\<lambda>w' j. host_on_close hk j w')
          (call_hook (handleClose hk i) (?w0\<lparr>others := map_delete i (others w)\<rparr>)) js"
    by (simp add: emit_close_def subs host_on_close_def)
  show "\<not> map_has i (map_delete i (others w))"
    by (simp add: map_has_get map_get_delete)
  show "host_send tr i d (?w0\<lparr>others := map_delete i (others w)\<rparr>) =
        (Inr False,
         ?w0\<lparr>others := map_delete i (others w),
             console := console w @ [(Warning, [JStr (''No open connection to '' @ i)])]\<rparr>)"
    by (simp add: host_send_no_entry map_get_delete)
next
  show "console (host_step (hk\<lparr>handleClose := send_in_hook tr d\<rparr>) tr (ConnClose h) w) =
     console w @ concat (map (\<lambda>j. [(Warning, [JStr (''No open connection to '' @ j)]),
                                      (Info, [JBool False])]) (c_subs (conns w h)))"
    by (simp add: emit_close_def fold_on_close_probe)
next
  assume m: "c_metadata (conns w h) = Some i"
  let ?w1 = "host_step hk tr (ConnOpen h) w"
  let ?e = "snd (host_evict hk tr i (upd_conn h (\<lambda>c. c\<lparr>c_open := True\<rparr>) w))"
  have step: "?w1 = host_track hk i h ?e"
    using m by (simp add: host_on_open_eq)
  show "map_get i (others ?w1) = Some h"
    unfolding step by (simp add: map_get_set)
  have "shrinks w (upd_conn h (\<lambda>c. c\<lparr>c_open := True\<rparr>) w)" by (rule shrinks_closed)
  moreover have "shrinks (upd_conn h (\<lambda>c. c\<lparr>c_open := True\<rparr>) w) ?e" by (rule shrinks_host_evict)
  ultimately have "shrinks w ?e" by (rule shrinks_trans)
  then have "c_subs (conns ?e h) = c_subs (conns w h)"
    by (simp add: shrinks_def)
  then show subs: "c_subs (conns ?w1 h) = c_subs (conns w h) @ [i]"
    unfolding step by simp
  define w1 where "w1 = host_step hk tr (ConnOpen h) w"
  from subs have "i \<in> set (c_subs (conns w1 h))" by (simp add: w1_def)
  then have "\<not> map_has i (others (host_step hk tr (ConnClose h) w1))"
    by (simp add: map_has_filter_keys)
  then show "\<not> map_has i (others (host_step hk tr (ConnClose h) ?w1))"
    unfolding w1_def .
qed

lemma host_after_new:
  "c_metadata (conns (host_after deferring []) 10) = Some ''QWERTYUIOP''"
  "c_subs (conns (host_after deferring []) 10) = []"
  "host_step default_hooks deferring (ConnOpen 10) (host_after deferring [])
     = host_after deferring [ConnOpen 10]"
  by (simp_all add: host_after_def host_run_def host_new_def Let_def seats_def)

theorem host_close_listener_order_witness:
  "c_metadata (conns (host_after deferring []) 10) = Some ''QWERTYUIOP'' \<and>
   map_get ''QWERTYUIOP'' (others (host_after deferring [ConnOpen 10])) = Some 10 \<and>
   c_subs (conns (host_after deferring [ConnOpen 10]) 10) = [''QWERTYUIOP''] \<and>
   \<not> map_has ''QWERTYUIOP'' (others (host_step default_hooks deferring (ConnClose 10)
        (host_after deferring [ConnOpen 10]))) \<and>
   console (host_step (default_hooks\<lparr>handleClose := send_in_hook deferring JNull\<rparr>) deferring
        (ConnClose 10) (host_after deferring [ConnOpen 10])) =
     console (host_after deferring [ConnOpen 10]) @
       [(Warning, [JStr ''No open connection to QWERTYUIOP'']), (Info, [JBool False])]"
proof -
  let ?w = "host_after deferring []"
  let ?w1 = "host_after deferring [ConnOpen 10]"
  note opened = host_close_listener_order [where hk = default_hooks and tr = deferring
      and h = 10 and w = ?w and i = "''QWERTYUIOP''", THEN conjunct2, THEN conjunct2,
      THEN conjunct2, rule_format, OF host_after_new(1), unfolded host_after_new(2,3) append_Nil]
  have reg: "map_get ''QWERTYUIOP'' (others ?w1) = Some 10"
    by (rule opened [THEN conjunct1])
  have subs: "c_subs (conns ?w1 10) = [''QWERTYUIOP'']"
    by (rule opened [THEN conjunct2, THEN conjunct1])
  have gone: "\<not> map_has ''QWERTYUIOP'' (others (host_step default_hooks deferring (ConnClose 10) ?w1))"
    by (rule opened [THEN conjunct2, THEN conjunct2])
  note closed = host_close_listener_order [where hk = default_hooks and tr = deferring
      and h = 10 and w = ?w1 and d = JNull, THEN conjunct2, THEN conjunct2, THEN conjunct1,
      unfolded subs]
  from closed have printed:
    "console (host_step (default_hooks\<lparr>handleClose := send_in_hook deferring JNull\<rparr>) deferring
        (ConnClose 10) ?w1) =
     console ?w1 @ [(Warning, [JStr ''No open connection to QWERTYUIOP'']), (Info, [JBool False])]"
    by simp
  from host_after_new(1) reg subs gone printed show ?thesis by blast
qed

end
